theory Spec2Isabelle
  imports Main "HOL-Library.Sublist" "HOL-Library.AList"
begin

chapter \<open>The program\<close>

section \<open>Python string operations used by automate.py\<close>

text \<open>
  Python strings are modelled as \<^typ>\<open>string\<close>, that is as lists of characters.
\<close>

definition startswith :: "string \<Rightarrow> string \<Rightarrow> bool" where
  "startswith s pre = prefix pre s"

definition endswith :: "string \<Rightarrow> string \<Rightarrow> bool" where
  "endswith s suf = suffix suf s"

text \<open>
  \<^verbatim>\<open>s.replace(old, new)\<close>: every non-overlapping occurrence of \<open>old\<close>, found
  scanning from the left, is replaced. For an empty \<open>old\<close> Python inserts
  \<open>new\<close> before every character and at the end.
\<close>

function replace_from :: "string \<Rightarrow> string \<Rightarrow> string \<Rightarrow> string" where
  "replace_from old new s =
     (if s = [] then []
      else if old \<noteq> [] \<and> prefix old s then new @ replace_from old new (drop (length old) s)
      else hd s # replace_from old new (tl s))"
  by pat_completeness auto
termination
  by (relation "measure (\<lambda>(old, new, s). length s)") auto

declare replace_from.simps [simp del]

definition py_replace :: "string \<Rightarrow> string \<Rightarrow> string \<Rightarrow> string" where
  "py_replace s old new =
     (if old = [] then new @ concat (map (\<lambda>c. c # new) s) else replace_from old new s)"

text \<open>
  \<^verbatim>\<open>s.split(sep)\<close> for a one-character separator: the segments between the
  separators, empty ones included; the empty string splits into one empty segment.
  \<open>cur\<close> is the segment being read.
\<close>

fun split_from :: "char \<Rightarrow> string \<Rightarrow> string \<Rightarrow> string list" where
  "split_from sep cur [] = [cur]"
| "split_from sep cur (c # cs) =
     (if c = sep then cur # split_from sep [] cs else split_from sep (cur @ [c]) cs)"

definition py_split :: "string \<Rightarrow> char \<Rightarrow> string list" where
  "py_split s sep = split_from sep [] s"

section \<open>Exceptions\<close>

text \<open>
  The exceptions that cross a function boundary in automate.py.
  \<open>ValueError\<close> and \<open>Exception\<close> are the two classes the source raises itself;
  \<open>LibraryError\<close> stands for any exception of a subclass of Python's
  \<open>Exception\<close> raised inside a library call (requests, os, shutil, tempfile,
  json, nacl, or a dictionary lookup); \<open>SystemExit\<close> is what \<^verbatim>\<open>sys.exit(n)\<close>
  raises, and it is not a subclass of \<open>Exception\<close>. Each carries what
  \<^verbatim>\<open>str(e)\<close> returns.
\<close>

datatype exn = ValueError string | Exception string | LibraryError string | SystemExit nat

fun is_Exception :: "exn \<Rightarrow> bool" where
  "is_Exception (SystemExit n) = False"
| "is_Exception e = True"

function string_of_nat :: "nat \<Rightarrow> string" where
  "string_of_nat n =
     (if n < 10 then [char_of (48 + n)]
      else string_of_nat (n div 10) @ [char_of (48 + n mod 10)])"
  by pat_completeness auto
termination
  by (relation "measure id") auto

declare string_of_nat.simps [simp del]

fun str_exn :: "exn \<Rightarrow> string" where
  "str_exn (ValueError m) = m"
| "str_exn (Exception m) = m"
| "str_exn (LibraryError m) = m"
| "str_exn (SystemExit n) = string_of_nat n"

section \<open>Repository locator\<close>

text \<open>
  \<^verbatim>\<open>extract_repo_info\<close> (automate.py, lines 81 to 96). The slice
  \<^verbatim>\<open>repo_url[:-4]\<close> is taken only when the string ends with \<open>.git\<close>, so it
  has at least four characters there.
\<close>

definition invalid_url :: "string \<Rightarrow> exn" where
  "invalid_url repo_url = ValueError (''Invalid GitHub URL format: '' @ repo_url)"

definition extract_repo_info :: "string \<Rightarrow> exn + (string \<times> string)" where
  "extract_repo_info repo_url0 =
     (let repo_url = (if endswith repo_url0 ''.git''
                      then take (length repo_url0 - 4) repo_url0 else repo_url0) in
      if startswith repo_url ''https://github.com/'' then
        (let parts = py_split (py_replace repo_url ''https://github.com/'' '''') (CHR ''/'') in
         if length parts \<noteq> 2 then Inl (invalid_url repo_url)
         else Inr (parts ! 0, parts ! 1))
      else if startswith repo_url ''git@github.com:'' then
        (let parts = py_split (py_replace repo_url ''git@github.com:'' '''') (CHR ''/'') in
         if length parts \<noteq> 2 then Inl (invalid_url repo_url)
         else Inr (parts ! 0, parts ! 1))
      else Inl (invalid_url repo_url))"

text \<open>
  \<^verbatim>\<open>s.strip()\<close> removes leading and trailing whitespace. Within the code points a
  \<^typ>\<open>char\<close> can hold, Python's whitespace is 9 to 13, 28 to 32, 133 and 160.
\<close>

definition is_space :: "char \<Rightarrow> bool" where
  "is_space c =
     (let n = (of_char c :: nat) in (9 \<le> n \<and> n \<le> 13) \<or> (28 \<le> n \<and> n \<le> 32) \<or> n = 133 \<or> n = 160)"

definition py_strip :: "string \<Rightarrow> string" where
  "py_strip s = rev (dropWhile is_space (rev (dropWhile is_space s)))"

text \<open>\<^verbatim>\<open>os.path.join(a, b)\<close> on a POSIX system.\<close>

definition path_join :: "string \<Rightarrow> string \<Rightarrow> string" where
  "path_join a b =
     (if startswith b ''/'' then b
      else if a = [] \<or> endswith a ''/'' then a @ b
      else a @ ''/'' @ b)"

text \<open>Truth value of an optional string, as in \<^verbatim>\<open>if secret_value:\<close>.\<close>

fun truthy :: "string option \<Rightarrow> bool" where
  "truthy None = False"
| "truthy (Some s) = (s \<noteq> [])"

section \<open>Results of processing a repository\<close>

text \<open>
  \<^verbatim>\<open>process_repository\<close> returns one of two dictionaries: the error dictionary with
  the keys \<open>repo\<close>, \<open>status\<close>, \<open>message\<close>, or the full one. \<open>secrets_added\<close> is an
  association list in insertion order, as a Python dict is.
\<close>

record repo_result =
  repo :: string
  status :: string
  workflows_pushed :: bool
  secrets_added :: "(string \<times> bool) list"
  permissions_updated :: bool
  errors :: "string list"

datatype result =
    Error_dict (err_repo: string) (err_status: string) (err_message: string)
  | Result_dict repo_result

fun result_status :: "result \<Rightarrow> string" where
  "result_status (Error_dict r s m) = s"
| "result_status (Result_dict d) = status d"


section \<open>The outside world\<close>

text \<open>
  Everything automate.py does to the outside goes through a library call: the HTTP
  session, the git subprocess, the file system, the sealed-box library, the clock. Each
  call is recorded as an \<open>event\<close> in a log, and what the call returns is given by an
  environment that may look at the whole log so far, so a call may answer differently
  each time. A library call that raises does so with a subclass of \<open>Exception\<close>; the
  environment gives its message.
  Console output is not modelled, except the final summary, which is one event
  carrying what it prints: the success count, the number of repositories and the results.
\<close>

datatype json = JStr string | JBool bool

record http_response =
  status_code :: nat
  response_text :: string
  json :: "string + (string \<times> string) list"

text \<open>
  \<open>json\<close> is what \<^verbatim>\<open>response.json()\<close> gives: a dictionary of strings, or
  \<open>Inl\<close> the message when it raises.
\<close>

record completed_process =
  returncode :: int
  stdout :: string
  stderr :: string

datatype event =
    Get string
  | Put string "(string \<times> json) list"
  | Import_nacl
  | Seal string string
  | Run "string list" string
  | Mkdtemp
  | Cleanup string
  | Getcwd
  | Chdir string
  | Makedirs string
  | Listdir string
  | Copy2 string string
  | Path_exists string
  | Sleep nat
  | Summary nat nat "result list"

record env =
  getenv :: "string \<Rightarrow> string option"
  session_get :: "event list \<Rightarrow> string \<Rightarrow> string + http_response"
  session_put :: "event list \<Rightarrow> string \<Rightarrow> (string \<times> json) list \<Rightarrow> string + http_response"
  import_nacl :: "event list \<Rightarrow> bool"
  sealed_box :: "event list \<Rightarrow> string \<Rightarrow> string \<Rightarrow> string + string"
  subprocess :: "event list \<Rightarrow> string list \<Rightarrow> string \<Rightarrow> string + completed_process"
  mkdtemp :: "event list \<Rightarrow> string + string"
  rmtree :: "event list \<Rightarrow> string \<Rightarrow> string option"
  os_getcwd :: "event list \<Rightarrow> string + string"
  os_makedirs :: "event list \<Rightarrow> string \<Rightarrow> string option"
  os_listdir :: "event list \<Rightarrow> string \<Rightarrow> string + string list"
  shutil_copy2 :: "event list \<Rightarrow> string \<Rightarrow> string \<Rightarrow> string option"
  os_path_exists :: "event list \<Rightarrow> string \<Rightarrow> bool"

text \<open>
  In \<open>rmtree\<close>, \<open>os_makedirs\<close> and \<open>shutil_copy2\<close>, \<open>Some m\<close> means the call raises
  with message \<open>m\<close>. \<open>import_nacl\<close> is whether \<^verbatim>\<open>from nacl import encoding, public\<close>
  succeeds; \<open>sealed_box\<close> is the rest of \<^verbatim>\<open>encrypt_secret\<close>: building the public
  key, sealing and base64 encoding.
\<close>

type_synonym 'a outcome = "(exn + 'a) \<times> event list"

text \<open>Sequencing: an exception skips the rest of the block.\<close>

definition and_then :: "'a outcome \<Rightarrow> ('a \<Rightarrow> event list \<Rightarrow> 'b outcome) \<Rightarrow> 'b outcome" where
  "and_then m f = (case m of (Inl e, log) \<Rightarrow> (Inl e, log) | (Inr x, log) \<Rightarrow> f x log)"

text \<open>
  \<^verbatim>\<open>try: body except Exception as e: handler\<close>. \<open>SystemExit\<close> is not an
  \<open>Exception\<close> and passes through.
\<close>

definition except_Exception :: "'a outcome \<Rightarrow> (exn \<Rightarrow> event list \<Rightarrow> 'a outcome) \<Rightarrow> 'a outcome" where
  "except_Exception body handler =
     (case body of
        (Inl e, log) \<Rightarrow> if is_Exception e then handler e log else (Inl e, log)
      | (Inr x, log) \<Rightarrow> (Inr x, log))"

text \<open>
  \<^verbatim>\<open>subprocess.run(args, cwd=cwd, check=check)\<close>. With \<open>check\<close>, a non-zero return
  code raises \<open>CalledProcessError\<close>. Every such call of automate.py sits inside a handler
  for that class in the same function, so it is a result of the call here and not one
  of the exceptions of \<^typ>\<open>exn\<close>. \<open>Run_raised\<close> is the call failing to run the
  program at all.
\<close>

datatype run_result =
    Completed completed_process
  | CalledProcessError completed_process
  | Run_raised string

definition subprocess_run ::
  "env \<Rightarrow> event list \<Rightarrow> string list \<Rightarrow> string \<Rightarrow> bool \<Rightarrow> run_result \<times> event list" where
  "subprocess_run env log args cwd check =
     (case subprocess env log args cwd of
        Inl m \<Rightarrow> (Run_raised m, log @ [Run args cwd])
      | Inr cp \<Rightarrow>
          (if check \<and> returncode cp \<noteq> 0 then CalledProcessError cp else Completed cp,
           log @ [Run args cwd]))"

definition http_get :: "env \<Rightarrow> event list \<Rightarrow> string \<Rightarrow> http_response outcome" where
  "http_get env log url =
     (case session_get env log url of
        Inl m \<Rightarrow> (Inl (LibraryError m), log @ [Get url])
      | Inr response \<Rightarrow> (Inr response, log @ [Get url]))"

definition http_put ::
  "env \<Rightarrow> event list \<Rightarrow> string \<Rightarrow> (string \<times> json) list \<Rightarrow> http_response outcome" where
  "http_put env log url data =
     (case session_put env log url data of
        Inl m \<Rightarrow> (Inl (LibraryError m), log @ [Put url data])
      | Inr response \<Rightarrow> (Inr response, log @ [Put url data]))"

text \<open>\<^verbatim>\<open>d[k]\<close> on a dictionary: a missing key raises \<open>KeyError\<close>, whose text is the quoted key.\<close>

definition lookup :: "(string \<times> string) list \<Rightarrow> string \<Rightarrow> event list \<Rightarrow> string outcome" where
  "lookup d k log =
     (case map_of d k of
        None \<Rightarrow> (Inl (LibraryError ([CHR 0x27] @ k @ [CHR 0x27])), log)
      | Some v \<Rightarrow> (Inr v, log))"

section \<open>Configuration\<close>

definition GITHUB_API_BASE :: string where
  "GITHUB_API_BASE = ''https://api.github.com''"


definition secret_names :: "string list" where
  "secret_names =
     [''AWS_ACCESS_KEY_ID'', ''AWS_SECRET_ACCESS_KEY'', ''AWS_REGION'', ''AWS_BEDROCK_MODEL_ID'']"

definition SECRETS_TO_ADD :: "env \<Rightarrow> (string \<times> string option) list" where
  "SECRETS_TO_ADD env = map (\<lambda>k. (k, getenv env k)) secret_names"

section \<open>File system calls\<close>

definition getcwd :: "env \<Rightarrow> event list \<Rightarrow> string outcome" where
  "getcwd env log =
     (case os_getcwd env log of
        Inl m \<Rightarrow> (Inl (LibraryError m), log @ [Getcwd])
      | Inr d \<Rightarrow> (Inr d, log @ [Getcwd]))"

definition makedirs :: "env \<Rightarrow> event list \<Rightarrow> string \<Rightarrow> unit outcome" where
  "makedirs env log path =
     (case os_makedirs env log path of
        Some m \<Rightarrow> (Inl (LibraryError m), log @ [Makedirs path])
      | None \<Rightarrow> (Inr (), log @ [Makedirs path]))"

definition listdir :: "env \<Rightarrow> event list \<Rightarrow> string \<Rightarrow> string list outcome" where
  "listdir env log path =
     (case os_listdir env log path of
        Inl m \<Rightarrow> (Inl (LibraryError m), log @ [Listdir path])
      | Inr names \<Rightarrow> (Inr names, log @ [Listdir path]))"

definition copy2 :: "env \<Rightarrow> event list \<Rightarrow> string \<Rightarrow> string \<Rightarrow> unit outcome" where
  "copy2 env log src dst =
     (case shutil_copy2 env log src dst of
        Some m \<Rightarrow> (Inl (LibraryError m), log @ [Copy2 src dst])
      | None \<Rightarrow> (Inr (), log @ [Copy2 src dst]))"

text \<open>
  \<^verbatim>\<open>with tempfile.TemporaryDirectory() as temp_dir: body\<close>. The directory is removed
  when the block is left, however it is left; an exception of the removal replaces the
  outcome of the block.
\<close>

definition with_temporary_directory ::
  "env \<Rightarrow> event list \<Rightarrow> (string \<Rightarrow> event list \<Rightarrow> 'a outcome) \<Rightarrow> 'a outcome" where
  "with_temporary_directory env log body =
     (case mkdtemp env log of
        Inl m \<Rightarrow> (Inl (LibraryError m), log @ [Mkdtemp])
      | Inr temp_dir \<Rightarrow>
          (case body temp_dir (log @ [Mkdtemp]) of
             (r, log1) \<Rightarrow>
               (case rmtree env log1 temp_dir of
                  Some m \<Rightarrow> (Inl (LibraryError m), log1 @ [Cleanup temp_dir])
                | None \<Rightarrow> (r, log1 @ [Cleanup temp_dir]))))"

section \<open>The class GitHubAutomation\<close>

text \<open>
  The methods take the environment and the log where Python takes \<open>self\<close>, and the
  token where they read \<^verbatim>\<open>self.token\<close>. The parameter \<open>repo\<close> of the source is
  \<open>repo_name\<close> here.
\<close>

definition check_repo_exists :: "env \<Rightarrow> event list \<Rightarrow> string \<Rightarrow> string \<Rightarrow> bool outcome" where
  "check_repo_exists env log owner repo_name =
     (let url = GITHUB_API_BASE @ ''/repos/'' @ owner @ ''/'' @ repo_name in
      and_then (http_get env log url) (\<lambda>response log.
        (Inr (status_code response = 200), log)))"

definition get_repo_public_key ::
  "env \<Rightarrow> event list \<Rightarrow> string \<Rightarrow> string \<Rightarrow> (string \<times> string) list outcome" where
  "get_repo_public_key env log owner repo_name =
     (let url = GITHUB_API_BASE @ ''/repos/'' @ owner @ ''/'' @ repo_name
                  @ ''/actions/secrets/public-key'' in
      and_then (http_get env log url) (\<lambda>response log.
        if status_code response = 200 then
          (case json response of
             Inl m \<Rightarrow> (Inl (LibraryError m), log)
           | Inr d \<Rightarrow> (Inr d, log))
        else
          (Inl (Exception (''Failed to get public key: '' @ string_of_nat (status_code response)
                 @ '' - '' @ response_text response)), log)))"

definition encrypt_secret :: "env \<Rightarrow> event list \<Rightarrow> string \<Rightarrow> string \<Rightarrow> string outcome" where
  "encrypt_secret env log public_key secret_value =
     (if \<not> import_nacl env log then (Inl (SystemExit 1), log @ [Import_nacl])
      else
        (case sealed_box env (log @ [Import_nacl]) public_key secret_value of
           Inl m \<Rightarrow> (Inl (LibraryError m), log @ [Import_nacl, Seal public_key secret_value])
         | Inr encrypted \<Rightarrow> (Inr encrypted, log @ [Import_nacl, Seal public_key secret_value])))"

definition secret_url :: "string \<Rightarrow> string \<Rightarrow> string \<Rightarrow> string" where
  "secret_url owner repo_name secret_name =
     GITHUB_API_BASE @ ''/repos/'' @ owner @ ''/'' @ repo_name @ ''/actions/secrets/'' @ secret_name"

definition create_or_update_secret ::
  "env \<Rightarrow> event list \<Rightarrow> string \<Rightarrow> string \<Rightarrow> string \<Rightarrow> string \<Rightarrow> bool outcome" where
  "create_or_update_secret env log owner repo_name secret_name secret_value =
     except_Exception
       (and_then (get_repo_public_key env log owner repo_name) (\<lambda>public_key_data log.
        and_then (lookup public_key_data ''key'' log) (\<lambda>key log.
        and_then (encrypt_secret env log key secret_value) (\<lambda>encrypted_value log.
        let url = secret_url owner repo_name secret_name in
        and_then (lookup public_key_data ''key_id'' log) (\<lambda>key_id log.
        let data = [(''encrypted_value'', JStr encrypted_value), (''key_id'', JStr key_id)] in
        and_then (http_put env log url data) (\<lambda>response log.
          if status_code response \<in> set [201, 204] then (Inr True, log)
          else (Inr False, log)))))))
       (\<lambda>e log. (Inr False, log))"

definition permissions_url :: "string \<Rightarrow> string \<Rightarrow> string" where
  "permissions_url owner repo_name =
     GITHUB_API_BASE @ ''/repos/'' @ owner @ ''/'' @ repo_name @ ''/actions/permissions''"

definition update_workflow_permissions ::
  "env \<Rightarrow> event list \<Rightarrow> string \<Rightarrow> string \<Rightarrow> bool outcome" where
  "update_workflow_permissions env log owner repo_name =
     except_Exception
       (let url = permissions_url owner repo_name;
            data = [(''enabled'', JBool True),
                    (''default_workflow_permissions'', JStr ''write''),
                    (''can_approve_pull_request_reviews'', JBool True)] in
        and_then (http_put env log url data) (\<lambda>response log.
          if status_code response \<in> set [200, 204] then (Inr True, log)
          else (Inr False, log)))
       (\<lambda>e log. (Inr False, log))"

text \<open>
  What follows a \<^verbatim>\<open>subprocess.run\<close>: \<open>on_cpe\<close> is the function's handler for
  \<open>CalledProcessError\<close>, \<open>k\<close> the rest of the block; failing to run the program is an
  exception that the handler does not catch.
\<close>

definition checked ::
  "run_result \<times> event list \<Rightarrow> (completed_process \<Rightarrow> event list \<Rightarrow> 'a outcome) \<Rightarrow>
   (completed_process \<Rightarrow> event list \<Rightarrow> 'a outcome) \<Rightarrow> 'a outcome" where
  "checked r on_cpe k =
     (case r of
        (Run_raised m, log) \<Rightarrow> (Inl (LibraryError m), log)
      | (CalledProcessError cp, log) \<Rightarrow> on_cpe cp log
      | (Completed cp, log) \<Rightarrow> k cp log)"

definition clone_repo ::
  "env \<Rightarrow> event list \<Rightarrow> string \<Rightarrow> string \<Rightarrow> string \<Rightarrow> string outcome" where
  "clone_repo env log token repo_url temp_dir =
     and_then (extract_repo_info repo_url, log) (\<lambda>(owner, repo_name) log.
       let clone_url = ''https://'' @ token @ ''@github.com/'' @ owner @ ''/'' @ repo_name @ ''.git'';
           repo_path = path_join temp_dir repo_name in
       and_then (getcwd env log) (\<lambda>original_cwd log.
         checked (subprocess_run env log [''git'', ''clone'', clone_url, repo_path] original_cwd True)
           (\<lambda>e log. (Inl (Exception (''Failed to clone repository: '' @ stderr e)), log))
           (\<lambda>cp log. (Inr repo_path, log))))"

text \<open>
  \<^verbatim>\<open>get_default_branch\<close> never raises: its handler is a bare \<^verbatim>\<open>except:\<close> that
  returns \<open>main\<close>. The loop over \<open>main\<close> and \<open>master\<close> is \<open>branch_fallbacks\<close>.
\<close>

fun branch_fallbacks :: "env \<Rightarrow> event list \<Rightarrow> string \<Rightarrow> string list \<Rightarrow> string \<times> event list" where
  "branch_fallbacks env log repo_path [] = (''main'', log)"
| "branch_fallbacks env log repo_path (branch # rest) =
     (case subprocess_run env log
             [''git'', ''show-ref'', ''--verify'', ''--quiet'', ''refs/heads/'' @ branch]
             repo_path False of
        (Completed result, log1) \<Rightarrow>
          if returncode result = 0 then (branch, log1)
          else branch_fallbacks env log1 repo_path rest
      | (CalledProcessError e, log1) \<Rightarrow> (''main'', log1)
      | (Run_raised m, log1) \<Rightarrow> (''main'', log1))"

definition get_default_branch :: "env \<Rightarrow> event list \<Rightarrow> string \<Rightarrow> string \<times> event list" where
  "get_default_branch env log repo_path =
     (case subprocess_run env log [''git'', ''branch'', ''--show-current''] repo_path True of
        (Completed result, log1) \<Rightarrow>
          (let current_branch = py_strip (stdout result) in
           if current_branch \<noteq> [] then (current_branch, log1)
           else
             (case subprocess_run env log1
                     [''git'', ''symbolic-ref'', ''refs/remotes/origin/HEAD''] repo_path False of
                (Completed result2, log2) \<Rightarrow>
                  if returncode result2 = 0
                  then (last (py_split (py_strip (stdout result2)) (CHR ''/'')), log2)
                  else branch_fallbacks env log2 repo_path [''main'', ''master'']
              | (CalledProcessError e, log2) \<Rightarrow> (''main'', log2)
              | (Run_raised m, log2) \<Rightarrow> (''main'', log2)))
      | (CalledProcessError e, log1) \<Rightarrow> (''main'', log1)
      | (Run_raised m, log1) \<Rightarrow> (''main'', log1))"

fun copy_workflow_files ::
  "env \<Rightarrow> event list \<Rightarrow> string \<Rightarrow> string \<Rightarrow> string list \<Rightarrow> unit outcome" where
  "copy_workflow_files env log workflows_source workflows_dest [] = (Inr (), log)"
| "copy_workflow_files env log workflows_source workflows_dest (workflow_file # rest) =
     (if endswith workflow_file ''.yml'' \<or> endswith workflow_file ''.yaml'' then
        and_then (copy2 env log (path_join workflows_source workflow_file)
                    (path_join workflows_dest workflow_file))
          (\<lambda>u log. copy_workflow_files env log workflows_source workflows_dest rest)
      else copy_workflow_files env log workflows_source workflows_dest rest)"

text \<open>
  The \<^verbatim>\<open>try\<close> block of \<^verbatim>\<open>push_workflows\<close> after \<^verbatim>\<open>original_cwd = os.getcwd()\<close>,
  with its handler \<^verbatim>\<open>except subprocess.CalledProcessError: return False\<close>.
\<close>

definition push_workflows_try ::
  "env \<Rightarrow> event list \<Rightarrow> string \<Rightarrow> string \<Rightarrow> bool outcome" where
  "push_workflows_try env log repo_path workflows_source =
     (let workflows_dest = path_join (path_join repo_path ''.github'') ''workflows'' in
      and_then (makedirs env log workflows_dest) (\<lambda>u log.
      and_then (listdir env log workflows_source) (\<lambda>files log.
      and_then (copy_workflow_files env log workflows_source workflows_dest files) (\<lambda>u log.
      checked (subprocess_run env log [''git'', ''add'', ''.github/workflows/''] repo_path True)
        (\<lambda>e log. (Inr False, log))
        (\<lambda>cp log.
      checked (subprocess_run env log [''git'', ''diff'', ''--cached'', ''--quiet''] repo_path False)
        (\<lambda>e log. (Inr False, log))
        (\<lambda>result log.
      if returncode result = 0 then (Inr True, log)
      else
      checked (subprocess_run env log
                 [''git'', ''commit'', ''-m'', ''Add/Update GitHub Actions workflows''] repo_path True)
        (\<lambda>e log. (Inr False, log))
        (\<lambda>cp log.
      case get_default_branch env log repo_path of
        (default_branch, log) \<Rightarrow>
      checked (subprocess_run env log [''git'', ''push'', ''origin'', default_branch] repo_path True)
        (\<lambda>e log. (Inr False, log))
        (\<lambda>cp log. (Inr True, log)))))))))"

text \<open>
  The \<^verbatim>\<open>finally\<close> clause calls \<^verbatim>\<open>os.chdir(original_cwd)\<close> and swallows whatever it
  raises. When \<^verbatim>\<open>os.getcwd()\<close> itself raised, \<open>original_cwd\<close> is unbound, the clause
  raises \<open>NameError\<close> before calling anything, and that is swallowed as well.
\<close>

definition push_workflows :: "env \<Rightarrow> event list \<Rightarrow> string \<Rightarrow> string \<Rightarrow> bool outcome" where
  "push_workflows env log repo_path workflows_source =
     (case getcwd env log of
        (Inl e, log1) \<Rightarrow> (Inl e, log1)
      | (Inr original_cwd, log1) \<Rightarrow>
          (case push_workflows_try env log1 repo_path workflows_source of
             (r, log2) \<Rightarrow> (r, log2 @ [Chdir original_cwd])))"

text \<open>The loop over \<^verbatim>\<open>SECRETS_TO_ADD.items()\<close> in \<^verbatim>\<open>process_repository\<close>.\<close>

fun set_secrets ::
  "env \<Rightarrow> event list \<Rightarrow> string \<Rightarrow> string \<Rightarrow> (string \<times> string option) list \<Rightarrow> repo_result
   \<Rightarrow> repo_result outcome" where
  "set_secrets env log owner repo_name [] result = (Inr result, log)"
| "set_secrets env log owner repo_name ((secret_name, secret_value) # rest) result =
     (case secret_value of
        Some v \<Rightarrow>
          if v \<noteq> [] then
            and_then (create_or_update_secret env log owner repo_name secret_name v)
              (\<lambda>success log.
                 set_secrets env log owner repo_name rest
                   (result\<lparr>secrets_added := AList.update secret_name success (secrets_added result),
                           errors := (if success then errors result
                                      else errors result @ [''Failed to set secret '' @ secret_name])\<rparr>))
          else
            set_secrets env log owner repo_name rest
              (result\<lparr>secrets_added := AList.update secret_name False (secrets_added result)\<rparr>)
      | None \<Rightarrow>
          set_secrets env log owner repo_name rest
            (result\<lparr>secrets_added := AList.update secret_name False (secrets_added result)\<rparr>))"

text \<open>Lines 312 to 331: the inner \<^verbatim>\<open>try\<close> of \<^verbatim>\<open>process_repository\<close>.\<close>

definition workflows_stage ::
  "env \<Rightarrow> event list \<Rightarrow> string \<Rightarrow> string \<Rightarrow> string \<Rightarrow> string \<Rightarrow> repo_result
   \<Rightarrow> repo_result outcome" where
  "workflows_stage env log token repo_url workflows_source temp_dir result =
     except_Exception
       (and_then (clone_repo env log token repo_url temp_dir) (\<lambda>repo_path log.
        and_then (push_workflows env log repo_path workflows_source) (\<lambda>workflows_success log.
          (Inr (result\<lparr>workflows_pushed := workflows_success,
                        errors := (if workflows_success then errors result
                                   else errors result @ [''Failed to push workflows''])\<rparr>), log))))
       (\<lambda>e log.
          (Inr (result\<lparr>errors := errors result @ [''Failed to process workflows: '' @ str_exn e]\<rparr>),
           log))"

definition process_repository ::
  "env \<Rightarrow> event list \<Rightarrow> string \<Rightarrow> string \<Rightarrow> string \<Rightarrow> result outcome" where
  "process_repository env log token repo_url workflows_source =
     except_Exception
       (and_then (extract_repo_info repo_url, log) (\<lambda>(owner, repo_name) log.
        and_then (check_repo_exists env log owner repo_name) (\<lambda>exists log.
          if \<not> exists then
            (Inr (Error_dict repo_url ''error'' ''Repository not found or not accessible''), log)
          else
            (let result = \<lparr>repo = repo_url, status = ''success'', workflows_pushed = False,
                           secrets_added = [], permissions_updated = False, errors = []\<rparr> in
             and_then (with_temporary_directory env log (\<lambda>temp_dir log.
                         workflows_stage env log token repo_url workflows_source temp_dir result))
               (\<lambda>result log.
             and_then (set_secrets env log owner repo_name (SECRETS_TO_ADD env) result)
               (\<lambda>result log.
             and_then (update_workflow_permissions env log owner repo_name)
               (\<lambda>permissions_success log.
                  let result = result\<lparr>permissions_updated := permissions_success,
                                      errors := (if permissions_success then errors result
                                                 else errors result
                                                   @ [''Failed to update workflow permissions''])\<rparr>;
                      result = (if errors result \<noteq> [] then result\<lparr>status := ''partial''\<rparr>
                                else result)
                  in (Inr (Result_dict result), log))))))))
       (\<lambda>e log. (Inr (Error_dict repo_url ''error'' (str_exn e)), log))"

section \<open>The script\<close>




section \<open>Notions used to state the properties\<close>

text \<open>
  The reference after its version-control suffix is removed, and the hosting prefix it
  starts with, as \<^verbatim>\<open>extract_repo_info\<close> tests them.
\<close>

definition strip_vcs_suffix :: "string \<Rightarrow> string" where
  "strip_vcs_suffix url = (if suffix ''.git'' url then take (length url - 4) url else url)"

definition known_prefix :: "string \<Rightarrow> string option" where
  "known_prefix url =
     (if prefix ''https://github.com/'' url then Some ''https://github.com/''
      else if prefix ''git@github.com:'' url then Some ''git@github.com:''
      else None)"

text \<open>
  What is left of the reference after its suffix and its hosting prefix, and whether
  the prefix occurs once more in that rest.
\<close>

definition remainder :: "string \<Rightarrow> string option" where
  "remainder url =
     (case known_prefix (strip_vcs_suffix url) of
        None \<Rightarrow> None
      | Some p \<Rightarrow> Some (drop (length p) (strip_vcs_suffix url)))"

definition prefix_recurs :: "string \<Rightarrow> bool" where
  "prefix_recurs url =
     (case known_prefix (strip_vcs_suffix url) of
        None \<Rightarrow> False
      | Some p \<Rightarrow> sublist p (drop (length p) (strip_vcs_suffix url)))"

text \<open>
  \<open>adds P log log'\<close>: the log \<open>log'\<close> is \<open>log\<close> followed by events that all
  satisfy \<open>P\<close>.
\<close>

definition adds :: "(event \<Rightarrow> bool) \<Rightarrow> event list \<Rightarrow> event list \<Rightarrow> bool" where
  "adds P log log' = (take (length log) log' = log \<and> list_all P (drop (length log) log'))"

fun is_Run :: "event \<Rightarrow> bool" where
  "is_Run (Run args cwd) = True"
| "is_Run e = False"

text \<open>The events of the file system, of git and of the scratch directory.\<close>

fun is_local :: "event \<Rightarrow> bool" where
  "is_local Getcwd = True"
| "is_local (Chdir d) = True"
| "is_local (Makedirs d) = True"
| "is_local (Listdir d) = True"
| "is_local (Copy2 s d) = True"
| "is_local (Run args cwd) = True"
| "is_local Mkdtemp = True"
| "is_local (Cleanup d) = True"
| "is_local e = False"

text \<open>
  The result dictionary as \<^verbatim>\<open>process_repository\<close> creates it, and the address of
  the existence query.
\<close>

definition initial_result :: "string \<Rightarrow> repo_result" where
  "initial_result repo_url =
     \<lparr>repo = repo_url, status = ''success'', workflows_pushed = False,
      secrets_added = [], permissions_updated = False, errors = []\<rparr>"

definition repo_api_url :: "string \<Rightarrow> string \<Rightarrow> string" where
  "repo_api_url owner repo_name = GITHUB_API_BASE @ ''/repos/'' @ owner @ ''/'' @ repo_name"

definition public_key_url :: "string \<Rightarrow> string \<Rightarrow> string" where
  "public_key_url owner repo_name =
     GITHUB_API_BASE @ ''/repos/'' @ owner @ ''/'' @ repo_name @ ''/actions/secrets/public-key''"

section \<open>Environments for the examples\<close>

definition key_response :: http_response where
  "key_response =
     \<lparr>status_code = 200, response_text = '''',
      json = Inr [(''key_id'', ''1''), (''key'', ''cHVibGlj'')]\<rparr>"

definition answer :: "nat \<Rightarrow> http_response" where
  "answer code = \<lparr>status_code = code, response_text = '''', json = Inl ''no body''\<rparr>"

definition exited :: "int \<Rightarrow> string \<Rightarrow> completed_process" where
  "exited rc out = \<lparr>returncode = rc, stdout = out, stderr = ''''\<rparr>"

text \<open>
  \<open>env_ok\<close>: the token and one secret are set, every request is answered with
  success, every git command exits with 0 (so the staged diff is empty), the file
  system does what it is asked.
\<close>

definition env_ok :: env where
  "env_ok =
     \<lparr>getenv = (\<lambda>k. if k = ''GITHUB_TOKEN'' then Some ''t0'' else
                     if k = ''AWS_REGION'' then Some ''eu-west-1'' else None),
      session_get = (\<lambda>log url. Inr key_response),
      session_put = (\<lambda>log url data. Inr (answer 204)),
      import_nacl = (\<lambda>log. True),
      sealed_box = (\<lambda>log key v. Inr ''c2VhbGVk''),
      subprocess = (\<lambda>log args cwd. Inr (exited 0 ''main'')),
      mkdtemp = (\<lambda>log. Inr ''/tmp/t0''),
      rmtree = (\<lambda>log d. None),
      os_getcwd = (\<lambda>log. Inr ''/work''),
      os_makedirs = (\<lambda>log d. None),
      os_listdir = (\<lambda>log d. Inr [''ci.yml'', ''notes.txt'']),
      shutil_copy2 = (\<lambda>log s d. None),
      os_path_exists = (\<lambda>log d. True)\<rparr>"

text \<open>\<open>env_unreachable\<close>: as \<open>env_ok\<close>, but every GET is answered with 404.\<close>

definition env_unreachable :: env where
  "env_unreachable = env_ok\<lparr>session_get := (\<lambda>log url. Inr (answer 404))\<rparr>"





text \<open>
  \<open>catchable m\<close>: whatever \<open>m\<close> raises is an instance of \<open>Exception\<close>, so that
  \<^verbatim>\<open>except Exception\<close> catches it.
\<close>

definition catchable :: "'a outcome \<Rightarrow> bool" where
  "catchable m = (case fst m of Inl e \<Rightarrow> is_Exception e | Inr x \<Rightarrow> True)"

text \<open>
  The errors that the loop over the secrets appends, read off the recorded outcomes:
  one for every secret that has a value and is not recorded as added.
\<close>

definition failed_secrets :: "(string \<times> string option) list \<Rightarrow> (string \<times> bool) list \<Rightarrow> string list" where
  "failed_secrets secrets added =
     map (\<lambda>p. ''Failed to set secret '' @ fst p)
       (filter (\<lambda>p. truthy (snd p) \<and> map_of added (fst p) \<noteq> Some True) secrets)"

text \<open>The events that provisioning the secrets of a repository can add to the log.\<close>

definition secret_event :: "string \<Rightarrow> string \<Rightarrow> (string \<times> string option) list \<Rightarrow> event \<Rightarrow> bool" where
  "secret_event owner repo_name secrets e =
     (case e of
        Get url \<Rightarrow> url = public_key_url owner repo_name
      | Import_nacl \<Rightarrow> True
      | Seal k v \<Rightarrow> True
      | Put url data \<Rightarrow>
          list_ex (\<lambda>p. truthy (snd p) \<and> url = secret_url owner repo_name (fst p)) secrets
      | _ \<Rightarrow> False)"

text \<open>
  The scratch-directory block of \<^verbatim>\<open>process_repository\<close> (lines 311 to 331), and what
  the function does with the result after the permission update (lines 353 to 363).
\<close>

definition scratch_stage ::
  "env \<Rightarrow> event list \<Rightarrow> string \<Rightarrow> string \<Rightarrow> string \<Rightarrow> repo_result outcome" where
  "scratch_stage env log token repo_url workflows_source =
     with_temporary_directory env log (\<lambda>temp_dir log.
       workflows_stage env log token repo_url workflows_source temp_dir (initial_result repo_url))"

definition finish :: "repo_result \<Rightarrow> bool \<Rightarrow> repo_result" where
  "finish result permissions_success =
     (let result = result\<lparr>permissions_updated := permissions_success,
                         errors := (if permissions_success then errors result
                                    else errors result @ [''Failed to update workflow permissions''])\<rparr>
      in if errors result \<noteq> [] then result\<lparr>status := ''partial''\<rparr> else result)"

definition permissions_data :: "(string \<times> json) list" where
  "permissions_data =
     [(''enabled'', JBool True),
      (''default_workflow_permissions'', JStr ''write''),
      (''can_approve_pull_request_reviews'', JBool True)]"









definition git_add :: "string list" where
  "git_add = [''git'', ''add'', ''.github/workflows/'']"

definition git_diff :: "string list" where
  "git_diff = [''git'', ''diff'', ''--cached'', ''--quiet'']"

definition workflows_dest_of :: "string \<Rightarrow> string" where
  "workflows_dest_of repo_path = path_join (path_join repo_path ''.github'') ''workflows''"

text \<open>
  The number of times the public key of a repository is fetched among some events
  (\<^verbatim>\<open>create_or_update_secret\<close> fetches it once, first thing, for the secret it is
  called for), and the number of configured secrets that have a value.
\<close>

definition key_fetches :: "string \<Rightarrow> string \<Rightarrow> event list \<Rightarrow> nat" where
  "key_fetches owner repo_name events =
     length (filter (\<lambda>e. e = Get (public_key_url owner repo_name)) events)"

definition with_value :: "(string \<times> string option) list \<Rightarrow> nat" where
  "with_value secrets = length (filter (\<lambda>p. truthy (snd p)) secrets)"

chapter \<open>Properties\<close>

section \<open>Strings\<close>

lemma split_from_not_Nil: "split_from sep cur s \<noteq> []"
  by (induction s arbitrary: cur) auto

lemma split_from_one:
  "split_from sep cur s = [b] \<longleftrightarrow> (sep \<notin> set s \<and> b = cur @ s)"
  by (induction s arbitrary: cur) (auto simp: split_from_not_Nil)

lemma split_from_two:
  "split_from sep cur s = [a, b] \<longleftrightarrow>
     (\<exists>x y. s = x @ sep # y \<and> sep \<notin> set x \<and> sep \<notin> set y \<and> a = cur @ x \<and> b = y)"
proof (induction s arbitrary: cur)
  case Nil
  then show ?case by simp
next
  case (Cons c cs)
  show ?case
  proof (cases "c = sep")
    case True
    then show ?thesis
      by (auto simp: Cons_eq_append_conv split_from_one)
  next
    case False
    then show ?thesis using Cons.IH[of "cur @ [c]"]
      by (auto simp: Cons_eq_append_conv)
  qed
qed

lemma py_split_not_Nil: "py_split s sep \<noteq> []"
  by (simp add: py_split_def split_from_not_Nil)

lemma py_split_two:
  "py_split s sep = [a, b] \<longleftrightarrow> (s = a @ sep # b \<and> sep \<notin> set a \<and> sep \<notin> set b)"
  by (auto simp: py_split_def split_from_two)

text \<open>
  Where the text to remove occurs only at the start, \<^verbatim>\<open>replace\<close> removes just
  that prefix.
\<close>

lemma replace_from_absent:
  "\<not> sublist old s \<Longrightarrow> replace_from old new s = s"
proof (induction old new s rule: replace_from.induct)
  case (1 old new s)
  show ?case
  proof (cases s)
    case Nil
    then show ?thesis by (subst replace_from.simps) simp
  next
    case (Cons c cs)
    have np: "\<not> prefix old s"
      using "1.prems" by (auto simp: prefix_def sublist_def)
    have "\<not> sublist old (tl s)"
      using "1.prems" Cons by (auto simp: sublist_Cons_right)
    then have "replace_from old new (tl s) = tl s"
      using "1.IH"(2) Cons np by simp
    then show ?thesis
      using Cons np by (subst replace_from.simps) simp
  qed
qed

lemma py_replace_prefix_once:
  assumes "old \<noteq> []" "prefix old s" "\<not> sublist old (drop (length old) s)"
  shows "py_replace s old [] = drop (length old) s"
proof -
  have "s \<noteq> []" using assms by auto
  then have "replace_from old [] s = replace_from old [] (drop (length old) s)"
    using assms by (subst replace_from.simps) simp
  then show ?thesis
    using assms by (simp add: py_replace_def replace_from_absent)
qed

section \<open>The repository locator\<close>

lemma parts_pair:
  "(if length parts \<noteq> 2 then Inl e else Inr (parts ! 0, parts ! 1)) = Inr (a, b)
     \<longleftrightarrow> parts = [a, b]"
  by (cases parts; cases "tl parts"; cases "tl (tl parts)") auto

lemma parts_fail:
  "(if length parts \<noteq> 2 then Inl e else Inr (parts ! 0, parts ! 1)) = Inl e'
     \<longleftrightarrow> (e' = e \<and> (\<forall>a b. parts \<noteq> [a, b]))"
  by (cases parts; cases "tl parts"; cases "tl (tl parts)") auto

lemma extract_repo_info_unfold:
  "extract_repo_info url =
     (case known_prefix (strip_vcs_suffix url) of
        None \<Rightarrow> Inl (invalid_url (strip_vcs_suffix url))
      | Some p \<Rightarrow>
          (let parts = py_split (py_replace (strip_vcs_suffix url) p '''') (CHR ''/'') in
           if length parts \<noteq> 2 then Inl (invalid_url (strip_vcs_suffix url))
           else Inr (parts ! 0, parts ! 1)))"
  unfolding extract_repo_info_def known_prefix_def strip_vcs_suffix_def startswith_def
    endswith_def
  by (simp only: Let_def option.case if_distrib[of "case_option _ _"] cong: if_cong)

lemma extract_repo_info_Inr:
  "extract_repo_info url = Inr (owner, name) \<longleftrightarrow>
     (\<exists>p. known_prefix (strip_vcs_suffix url) = Some p \<and>
          py_replace (strip_vcs_suffix url) p '''' = owner @ CHR ''/'' # name \<and>
          CHR ''/'' \<notin> set owner \<and> CHR ''/'' \<notin> set name)"
proof (cases "known_prefix (strip_vcs_suffix url)")
  case None
  then show ?thesis by (simp add: extract_repo_info_unfold)
next
  case (Some p)
  then show ?thesis
    by (simp only: extract_repo_info_unfold option.case Let_def parts_pair py_split_two) auto
qed

lemma extract_repo_info_Inl:
  "extract_repo_info url = Inl e \<longleftrightarrow>
     (e = invalid_url (strip_vcs_suffix url) \<and>
      \<not> (\<exists>p owner name. known_prefix (strip_vcs_suffix url) = Some p \<and>
          py_replace (strip_vcs_suffix url) p '''' = owner @ CHR ''/'' # name \<and>
          CHR ''/'' \<notin> set owner \<and> CHR ''/'' \<notin> set name))"
proof (cases "known_prefix (strip_vcs_suffix url)")
  case None
  then show ?thesis by (auto simp add: extract_repo_info_unfold)
next
  case (Some p)
  then show ?thesis
    by (simp only: extract_repo_info_unfold option.case Let_def parts_fail py_split_two) auto
qed

text \<open>
  C3, as stated, asks for two non-empty segments. The code counts the segments only:
  a reference with an empty repository name is accepted.
\<close>

theorem extract_repo_info_empty_name_counterexample:
  "extract_repo_info ''https://github.com/owner/'' = Inr (''owner'', '''')"
  by code_simp

lemma known_prefix_Some:
  "known_prefix u = Some p \<Longrightarrow> p \<noteq> [] \<and> prefix p u"
  by (auto simp: known_prefix_def split: if_splits)

lemma replaced_is_remainder:
  assumes "\<not> prefix_recurs url" and "known_prefix (strip_vcs_suffix url) = Some p"
  shows "py_replace (strip_vcs_suffix url) p [] = drop (length p) (strip_vcs_suffix url)"
  using assms known_prefix_Some [OF assms(2)]
  by (intro py_replace_prefix_once) (simp_all add: prefix_recurs_def)

text \<open>
  C3, amended: for a reference in which the hosting prefix does not occur a second
  time, \<^verbatim>\<open>extract_repo_info\<close> returns the pair (owner, name) exactly when the
  reference, after its \<open>.git\<close> suffix is removed, starts with the HTTPS or the SSH
  prefix and what follows the prefix is owner, one slash, name, where neither part
  contains a slash, that is, it splits on the slash into exactly two segments; either
  segment may be empty. In every other case (unknown prefix, another number of segments)
  it fails with the \<open>ValueError\<close> that carries the reference without its suffix.
\<close>

theorem extract_repo_info_amended:
  assumes "\<not> prefix_recurs url"
  shows "(extract_repo_info url = Inr (owner, name) \<longleftrightarrow>
            remainder url = Some (owner @ CHR ''/'' # name) \<and>
            CHR ''/'' \<notin> set owner \<and> CHR ''/'' \<notin> set name) \<and>
         (extract_repo_info url = Inl e \<longleftrightarrow>
            e = invalid_url (strip_vcs_suffix url) \<and>
            \<not> (\<exists>owner' name'. remainder url = Some (owner' @ CHR ''/'' # name') \<and>
                 CHR ''/'' \<notin> set owner' \<and> CHR ''/'' \<notin> set name'))"
proof (cases "known_prefix (strip_vcs_suffix url)")
  case None
  then show ?thesis
    by (auto simp: extract_repo_info_Inr extract_repo_info_Inl remainder_def)
next
  case (Some p)
  have "py_replace (strip_vcs_suffix url) p [] = drop (length p) (strip_vcs_suffix url)"
    using assms Some by (rule replaced_is_remainder)
  then show ?thesis
    using Some by (auto simp: extract_repo_info_Inr extract_repo_info_Inl remainder_def)
qed

theorem extract_repo_info_amended_witness:
  "\<not> prefix_recurs ''git@github.com:owner/repo.git'' \<and>
   remainder ''git@github.com:owner/repo.git'' = Some (''owner'' @ CHR ''/'' # ''repo'') \<and>
   extract_repo_info ''git@github.com:owner/repo.git'' = Inr (''owner'', ''repo'') \<and>
   \<not> prefix_recurs ''https://github.com/owner'' \<and>
   extract_repo_info ''https://github.com/owner''
     = Inl (ValueError ''Invalid GitHub URL format: https://github.com/owner'')"
proof -
  have k: "\<not> prefix_recurs ''git@github.com:owner/repo.git''"
    "\<not> prefix_recurs ''https://github.com/owner''"
    by code_simp+
  have r: "remainder ''git@github.com:owner/repo.git'' = Some (''owner'' @ CHR ''/'' # ''repo'')"
    by code_simp
  have 1: "extract_repo_info ''git@github.com:owner/repo.git'' = Inr (''owner'', ''repo'')"
    using extract_repo_info_amended [OF k(1), of "''owner''" "''repo''"] r by simp
  have rem: "remainder ''https://github.com/owner'' = Some ''owner''"
    by code_simp
  have ne: "\<not> (\<exists>owner' name'.
      remainder ''https://github.com/owner'' = Some (owner' @ CHR ''/'' # name') \<and>
      CHR ''/'' \<notin> set owner' \<and> CHR ''/'' \<notin> set name')"
  proof
    assume "\<exists>owner' name'.
      remainder ''https://github.com/owner'' = Some (owner' @ CHR ''/'' # name') \<and>
      CHR ''/'' \<notin> set owner' \<and> CHR ''/'' \<notin> set name'"
    then obtain owner' name' where "''owner'' = owner' @ CHR ''/'' # name'"
      using rem by auto
    then have "CHR ''/'' \<in> set ''owner''"
      by (metis in_set_conv_decomp)
    then show False by simp
  qed
  have iu: "ValueError ''Invalid GitHub URL format: https://github.com/owner''
      = invalid_url (strip_vcs_suffix ''https://github.com/owner'')"
    by code_simp
  from extract_repo_info_amended
      [OF k(2), of "''owner''" "''repo''"
         "ValueError ''Invalid GitHub URL format: https://github.com/owner''"]
  have "extract_repo_info ''https://github.com/owner''
          = Inl (ValueError ''Invalid GitHub URL format: https://github.com/owner'') \<longleftrightarrow>
        ValueError ''Invalid GitHub URL format: https://github.com/owner''
          = invalid_url (strip_vcs_suffix ''https://github.com/owner'') \<and>
        \<not> (\<exists>owner' name'.
          remainder ''https://github.com/owner'' = Some (owner' @ CHR ''/'' # name') \<and>
          CHR ''/'' \<notin> set owner' \<and> CHR ''/'' \<notin> set name')"
    by (rule conjunct2)
  with iu ne have 2: "extract_repo_info ''https://github.com/owner''
     = Inl (ValueError ''Invalid GitHub URL format: https://github.com/owner'')"
    by blast
  from k r 1 2 show ?thesis by simp
qed

section \<open>Sequencing and handlers\<close>

lemma and_then_Inl [simp]: "and_then (Inl e, log) f = (Inl e, log)"
  by (simp add: and_then_def)

lemma and_then_Inr [simp]: "and_then (Inr x, log) f = f x log"
  by (simp add: and_then_def)

lemma except_Exception_Inr [simp]: "except_Exception (Inr x, log) h = (Inr x, log)"
  by (simp add: except_Exception_def)

lemma except_Exception_Inl [simp]:
  "except_Exception (Inl e, log) h = (if is_Exception e then h e log else (Inl e, log))"
  by (simp add: except_Exception_def)

lemma checked_simps [simp]:
  "checked (Run_raised m, log) h k = (Inl (LibraryError m), log)"
  "checked (CalledProcessError cp, log) h k = h cp log"
  "checked (Completed cp, log) h k = k cp log"
  by (simp_all add: checked_def)

lemma outcome_cases:
  obtains (raised) e log' where "m = (Inl e, log')" | (returned) x log' where "m = (Inr x, log')"
  by (cases m; cases "fst m") auto

section \<open>The log only grows\<close>

lemma adds_iff: "adds P log log' \<longleftrightarrow> (\<exists>new. log' = log @ new \<and> list_all P new)"
proof
  assume "adds P log log'"
  then have "log' = log @ drop (length log) log' \<and> list_all P (drop (length log) log')"
    by (metis adds_def append_take_drop_id)
  then show "\<exists>new. log' = log @ new \<and> list_all P new" by blast
next
  assume "\<exists>new. log' = log @ new \<and> list_all P new"
  then show "adds P log log'" by (auto simp: adds_def)
qed

lemma adds_refl [simp]: "adds P log log"
  by (simp add: adds_def)

lemma adds_snoc: "adds P log log' \<Longrightarrow> P e \<Longrightarrow> adds P log (log' @ [e])"
  by (auto simp: adds_iff)

lemma adds_one [simp]: "adds P log (log @ [e]) \<longleftrightarrow> P e"
  by (simp add: adds_def)

lemma adds_trans: "adds P a b \<Longrightarrow> adds P b c \<Longrightarrow> adds P a c"
  by (auto simp: adds_iff)

lemma adds_mono: "adds P a b \<Longrightarrow> (\<And>e. P e \<Longrightarrow> Q e) \<Longrightarrow> adds Q a b"
  by (auto simp: adds_iff list_all_iff)

lemma adds_and_then:
  assumes "adds P log (snd m)" and "\<And>x l. adds P l (snd (f x l))"
  shows "adds P log (snd (and_then m f))"
proof (cases m rule: outcome_cases)
  case (raised e log')
  then show ?thesis using assms(1) by simp
next
  case (returned x log')
  then show ?thesis using assms(1) assms(2)[of log' x] by (auto intro: adds_trans)
qed

lemma adds_except_Exception:
  assumes "adds P log (snd m)" and "\<And>e l. snd (h e l) = l"
  shows "adds P log (snd (except_Exception m h))"
  using assms by (cases m rule: outcome_cases) auto

lemma subprocess_run_snd [simp]:
  "snd (subprocess_run env log args cwd check) = log @ [Run args cwd]"
  by (simp add: subprocess_run_def split: sum.splits)

lemma subprocess_run_unchecked [simp]:
  "fst (subprocess_run env log args cwd False) \<noteq> CalledProcessError cp"
  by (simp add: subprocess_run_def split: sum.splits)

lemma getcwd_snd [simp]: "snd (getcwd env log) = log @ [Getcwd]"
  by (simp add: getcwd_def split: sum.splits)

lemma makedirs_snd [simp]: "snd (makedirs env log d) = log @ [Makedirs d]"
  by (simp add: makedirs_def split: option.splits)

lemma listdir_snd [simp]: "snd (listdir env log d) = log @ [Listdir d]"
  by (simp add: listdir_def split: sum.splits)

lemma copy2_snd [simp]: "snd (copy2 env log s d) = log @ [Copy2 s d]"
  by (simp add: copy2_def split: option.splits)

lemma http_get_snd [simp]: "snd (http_get env log url) = log @ [Get url]"
  by (simp add: http_get_def split: sum.splits)

lemma http_put_snd [simp]: "snd (http_put env log url data) = log @ [Put url data]"
  by (simp add: http_put_def split: sum.splits)

lemma lookup_snd [simp]: "snd (lookup d k log) = log"
  by (simp add: lookup_def split: option.splits)

lemma adds_checked:
  assumes "P (Run args cwd)"
    and "\<And>cp l. adds P l (snd (h cp l))" and "\<And>cp l. adds P l (snd (k cp l))"
  shows "adds P log (snd (checked (subprocess_run env log args cwd check) h k))"
proof -
  obtain r where r: "subprocess_run env log args cwd check = (r, log @ [Run args cwd])"
    by (metis prod.collapse subprocess_run_snd)
  have "adds P (log @ [Run args cwd]) (snd (checked (r, log @ [Run args cwd]) h k))"
    using assms(2,3) by (cases r) simp_all
  then show ?thesis
    unfolding r using assms(1) by (auto intro: adds_trans [of P log "log @ [Run args cwd]"])
qed

lemma adds_copy_workflow_files:
  "adds (\<lambda>e. \<exists>s d. e = Copy2 s d) log (snd (copy_workflow_files env log src dst files))"
proof (induction files arbitrary: log)
  case Nil
  then show ?case by simp
next
  case (Cons f files)
  show ?case
  proof (cases "endswith f ''.yml'' \<or> endswith f ''.yaml''")
    case True
    have "adds (\<lambda>e. \<exists>s d. e = Copy2 s d) log
            (snd (and_then (copy2 env log (path_join src f) (path_join dst f))
                    (\<lambda>u log. copy_workflow_files env log src dst files)))"
      by (rule adds_and_then) (simp_all add: Cons.IH)
    then show ?thesis using True by simp
  next
    case False
    then show ?thesis using Cons.IH by simp
  qed
qed

lemma adds_branch_fallbacks:
  "adds is_Run log (snd (branch_fallbacks env log repo_path branches))"
proof (induction branches arbitrary: log)
  case Nil
  then show ?case by simp
next
  case (Cons b branches)
  let ?args = "[''git'', ''show-ref'', ''--verify'', ''--quiet'', ''refs/heads/'' @ b]"
  obtain r where r: "subprocess_run env log ?args repo_path False = (r, log @ [Run ?args repo_path])"
    by (metis prod.collapse subprocess_run_snd)
  have step: "adds is_Run log (log @ [Run ?args repo_path])" by simp
  have rest: "adds is_Run log
                (snd (branch_fallbacks env (log @ [Run ?args repo_path]) repo_path branches))"
    using step Cons.IH by (rule adds_trans)
  show ?case
  proof (cases r)
    case (Completed cp)
    then show ?thesis
      using r step rest by simp
  next
    case (CalledProcessError cp)
    then show ?thesis using r by simp
  next
    case (Run_raised m)
    then show ?thesis using r by simp
  qed
qed

lemma adds_get_default_branch:
  "adds is_Run log (snd (get_default_branch env log repo_path))"
proof -
  let ?a1 = "[''git'', ''branch'', ''--show-current'']"
  let ?a2 = "[''git'', ''symbolic-ref'', ''refs/remotes/origin/HEAD'']"
  let ?l1 = "log @ [Run ?a1 repo_path]"
  let ?l2 = "?l1 @ [Run ?a2 repo_path]"
  obtain r1 where r1: "subprocess_run env log ?a1 repo_path True = (r1, ?l1)"
    by (metis prod.collapse subprocess_run_snd)
  obtain r2 where r2: "subprocess_run env ?l1 ?a2 repo_path False = (r2, ?l2)"
    by (metis prod.collapse subprocess_run_snd)
  have s1: "adds is_Run log ?l1" by simp
  have s2: "adds is_Run log ?l2" by (simp add: adds_def)
  have s3: "adds is_Run log (snd (branch_fallbacks env ?l2 repo_path [''main'', ''master'']))"
    using s2 adds_branch_fallbacks by (rule adds_trans)
  show ?thesis
    unfolding get_default_branch_def r1
    using s1 s2 s3 r2
    by (cases r1; cases r2) (simp_all add: Let_def)
qed

section \<open>What each step can raise\<close>

lemma catchable_Inr [simp]: "catchable (Inr x, log)"
  by (simp add: catchable_def)

lemma catchable_Inl [simp]: "catchable (Inl e, log) \<longleftrightarrow> is_Exception e"
  by (simp add: catchable_def)

lemma catchable_and_then:
  assumes "catchable m" and "\<And>x l. catchable (f x l)"
  shows "catchable (and_then m f)"
  using assms by (cases m rule: outcome_cases) auto

lemma catchable_checked:
  assumes "\<And>cp l. catchable (h cp l)" and "\<And>cp l. catchable (k cp l)"
  shows "catchable (checked r h k)"
  using assms by (cases r; cases "fst r") auto

lemma catchable_calls [simp]:
  "catchable (getcwd env log)"
  "catchable (makedirs env log d)"
  "catchable (listdir env log d)"
  "catchable (copy2 env log s d)"
  "catchable (http_get env log url)"
  "catchable (http_put env log url data)"
  "catchable (lookup dict k log)"
  by (simp_all add: getcwd_def makedirs_def listdir_def copy2_def http_get_def http_put_def
      lookup_def split: sum.splits option.splits)

lemma catchable_extract_repo_info [simp]: "catchable (extract_repo_info url, log)"
proof (cases "extract_repo_info url")
  case (Inl e)
  then have "e = invalid_url (strip_vcs_suffix url)"
    by (simp add: extract_repo_info_Inl)
  with Inl show ?thesis by (simp add: invalid_url_def)
next
  case (Inr p)
  then show ?thesis by simp
qed

section \<open>Cloning and pushing\<close>

lemma catchable_clone_repo: "catchable (clone_repo env log token repo_url temp_dir)"
  unfolding clone_repo_def
  by (intro catchable_and_then catchable_checked catchable_extract_repo_info)
     (simp_all add: case_prod_beta Let_def catchable_and_then catchable_checked)

lemma adds_clone_repo: "adds is_local log (snd (clone_repo env log token repo_url temp_dir))"
  unfolding clone_repo_def
  by (rule adds_and_then, simp)
     (auto simp: case_prod_beta Let_def intro!: adds_and_then adds_checked)

lemma catchable_copy_workflow_files:
  "catchable (copy_workflow_files env log src dst files)"
  by (induction files arbitrary: log) (auto intro: catchable_and_then)

lemma adds_local_copy_workflow_files:
  "adds is_local log (snd (copy_workflow_files env log src dst files))"
  by (rule adds_mono [OF adds_copy_workflow_files]) auto

lemma catchable_push_workflows_try:
  "catchable (push_workflows_try env log repo_path workflows_source)"
  unfolding push_workflows_try_def Let_def
  by (intro catchable_and_then catchable_checked catchable_calls catchable_copy_workflow_files)
     (simp_all add: case_prod_beta catchable_checked)

lemma adds_push_tail:
  "adds is_local log
     (snd (case get_default_branch env log repo_path of
             (default_branch, log) \<Rightarrow>
               checked (subprocess_run env log [''git'', ''push'', ''origin'', default_branch]
                          repo_path True)
                 (\<lambda>e log. (Inr False, log)) (\<lambda>cp log. (Inr True, log))))"
proof -
  have "adds is_local log (snd (get_default_branch env log repo_path))"
    by (rule adds_mono [OF adds_get_default_branch]) (auto elim: is_Run.elims)
  moreover have "adds is_local (snd (get_default_branch env log repo_path))
     (snd (checked (subprocess_run env (snd (get_default_branch env log repo_path))
                      [''git'', ''push'', ''origin'', fst (get_default_branch env log repo_path)]
                      repo_path True)
             (\<lambda>e log. (Inr False, log)) (\<lambda>cp log. (Inr True, log))))"
    by (rule adds_checked) simp_all
  ultimately show ?thesis
    by (simp add: case_prod_beta) (rule adds_trans)
qed

lemma adds_push_workflows_try:
  "adds is_local log (snd (push_workflows_try env log repo_path workflows_source))"
  unfolding push_workflows_try_def Let_def
  by (intro adds_and_then adds_checked adds_local_copy_workflow_files)
     (simp_all add: adds_push_tail adds_checked)

lemma catchable_push_workflows:
  "catchable (push_workflows env log repo_path workflows_source)"
proof (cases "getcwd env log" rule: outcome_cases)
  case (raised e log')
  then show ?thesis
    using catchable_calls(1) [of env log] by (simp add: push_workflows_def)
next
  case (returned x log')
  then show ?thesis
    using catchable_push_workflows_try [of env log' repo_path workflows_source]
    by (simp add: push_workflows_def case_prod_beta catchable_def)
qed

lemma adds_push_workflows:
  "adds is_local log (snd (push_workflows env log repo_path workflows_source))"
proof (cases "getcwd env log" rule: outcome_cases)
  case (raised e log')
  then show ?thesis
    using getcwd_snd [of env log] by (simp add: push_workflows_def)
next
  case (returned x log')
  then have l: "log' = log @ [Getcwd]"
    using getcwd_snd [of env log] by simp
  have "adds is_local log' (snd (push_workflows_try env log' repo_path workflows_source))"
    by (rule adds_push_workflows_try)
  then have "adds is_local log (snd (push_workflows_try env log' repo_path workflows_source))"
    unfolding l by (auto intro: adds_trans [of _ _ "log @ [Getcwd]"])
  then show ?thesis
    using returned by (simp add: push_workflows_def case_prod_beta adds_snoc)
qed

section \<open>The workflow stage\<close>

text \<open>
  The workflow stage returns whatever happens: it records the outcome of the push,
  appends one error when the push failed or an exception was caught, and leaves the
  rest of the result as it was.
\<close>

lemma workflows_stage_result:
  assumes "\<not> workflows_pushed result"
  shows "\<exists>pushed es log'.
     workflows_stage env log token repo_url workflows_source temp_dir result =
       (Inr (result\<lparr>workflows_pushed := pushed, errors := errors result @ es\<rparr>), log') \<and>
     (es = [] \<longleftrightarrow> pushed) \<and>
     (\<forall>name. ''Failed to set secret '' @ name \<notin> set es)"
proof -
  let ?body = "and_then (clone_repo env log token repo_url temp_dir) (\<lambda>repo_path log.
        and_then (push_workflows env log repo_path workflows_source) (\<lambda>workflows_success log.
          (Inr (result\<lparr>workflows_pushed := workflows_success,
                        errors := (if workflows_success then errors result
                                   else errors result @ [''Failed to push workflows''])\<rparr>), log)))"
  have c: "catchable ?body"
    by (intro catchable_and_then catchable_clone_repo catchable_push_workflows) simp
  show ?thesis
  proof (cases ?body rule: outcome_cases)
    case (raised e log')
    then have "is_Exception e" using c by simp
    then have "workflows_stage env log token repo_url workflows_source temp_dir result =
        (Inr (result\<lparr>workflows_pushed := workflows_pushed result,
                      errors := errors result @ [''Failed to process workflows: '' @ str_exn e]\<rparr>),
         log')"
      using raised by (simp add: workflows_stage_def)
    then show ?thesis using assms by (intro exI [of _ False]) auto
  next
    case (returned r log')
    obtain repo_path l1 where cl: "clone_repo env log token repo_url temp_dir = (Inr repo_path, l1)"
      using returned by (cases "clone_repo env log token repo_url temp_dir" rule: outcome_cases) auto
    obtain b l2 where pw: "push_workflows env l1 repo_path workflows_source = (Inr b, l2)"
      using returned cl
      by (cases "push_workflows env l1 repo_path workflows_source" rule: outcome_cases) auto
    have "workflows_stage env log token repo_url workflows_source temp_dir result =
        (Inr (result\<lparr>workflows_pushed := b,
                      errors := errors result @ (if b then [] else [''Failed to push workflows''])\<rparr>),
         l2)"
      using cl pw by (simp add: workflows_stage_def)
    then show ?thesis by (intro exI [of _ b]) auto
  qed
qed

lemma adds_workflows_stage:
  "adds is_local log
     (snd (workflows_stage env log token repo_url workflows_source temp_dir result))"
  unfolding workflows_stage_def
  by (intro adds_except_Exception adds_and_then adds_clone_repo adds_push_workflows) simp_all

section \<open>One secret\<close>

text \<open>\<^verbatim>\<open>create_or_update_secret\<close>, step by step.\<close>

lemma create_or_update_secret_unfold:
  "create_or_update_secret env log owner repo_name secret_name secret_value =
     (let l1 = log @ [Get (public_key_url owner repo_name)] in
      case session_get env log (public_key_url owner repo_name) of
        Inl m \<Rightarrow> (Inr False, l1)
      | Inr response \<Rightarrow>
          if status_code response \<noteq> 200 then (Inr False, l1)
          else
            (case json response of
               Inl m \<Rightarrow> (Inr False, l1)
             | Inr d \<Rightarrow>
                 (case map_of d ''key'' of
                    None \<Rightarrow> (Inr False, l1)
                  | Some key \<Rightarrow>
                      if \<not> import_nacl env l1 then (Inl (SystemExit 1), l1 @ [Import_nacl])
                      else
                        (let l2 = l1 @ [Import_nacl, Seal key secret_value] in
                         case sealed_box env (l1 @ [Import_nacl]) key secret_value of
                           Inl m \<Rightarrow> (Inr False, l2)
                         | Inr encrypted \<Rightarrow>
                             (case map_of d ''key_id'' of
                                None \<Rightarrow> (Inr False, l2)
                              | Some key_id \<Rightarrow>
                                  (let url = secret_url owner repo_name secret_name;
                                       data = [(''encrypted_value'', JStr encrypted),
                                               (''key_id'', JStr key_id)] in
                                   case session_put env l2 url data of
                                     Inl m \<Rightarrow> (Inr False, l2 @ [Put url data])
                                   | Inr reply \<Rightarrow>
                                       (Inr (status_code reply = 201 \<or> status_code reply = 204),
                                        l2 @ [Put url data])))))))"
  by (simp add: create_or_update_secret_def get_repo_public_key_def public_key_url_def
      http_get_def http_put_def lookup_def encrypt_secret_def Let_def
      split: sum.splits option.splits)

lemma create_or_update_secret_raises:
  "fst (create_or_update_secret env log owner repo_name secret_name secret_value) = Inl e
     \<Longrightarrow> e = SystemExit 1"
  by (simp add: create_or_update_secret_unfold Let_def split: sum.splits option.splits if_splits)


lemma adds_create_or_update_secret:
  assumes "(secret_name, Some secret_value) \<in> set secrets" and "secret_value \<noteq> []"
  shows "adds (secret_event owner repo_name secrets) log
     (snd (create_or_update_secret env log owner repo_name secret_name secret_value))"
proof -
  have put: "secret_event owner repo_name secrets (Put (secret_url owner repo_name secret_name) d)" for d
    using assms by (auto simp: secret_event_def list_ex_iff intro!: bexI [of _ "(secret_name, Some secret_value)"])
  have others: "secret_event owner repo_name secrets (Get (public_key_url owner repo_name))"
    "secret_event owner repo_name secrets Import_nacl"
    "secret_event owner repo_name secrets (Seal k v)" for k v
    by (simp_all add: secret_event_def)
  show ?thesis
    by (simp add: create_or_update_secret_unfold Let_def adds_def put others
        split: sum.splits option.splits)
qed

lemma public_key_fetched_once:
  "length (filter (\<lambda>e. e = Get (public_key_url owner repo_name))
     (drop (length log)
        (snd (create_or_update_secret env log owner repo_name secret_name secret_value)))) = 1"
  by (simp add: create_or_update_secret_unfold Let_def split: sum.splits option.splits)

section \<open>The loop over the secrets\<close>

lemma set_secrets_skip:
  "\<not> truthy v \<Longrightarrow>
   set_secrets env log owner repo_name ((n, v) # rest) result =
     set_secrets env log owner repo_name rest
       (result\<lparr>secrets_added := AList.update n False (secrets_added result)\<rparr>)"
  by (cases v) auto

lemma set_secrets_try:
  "v \<noteq> [] \<Longrightarrow>
   set_secrets env log owner repo_name ((n, Some v) # rest) result =
     and_then (create_or_update_secret env log owner repo_name n v)
       (\<lambda>success log.
          set_secrets env log owner repo_name rest
            (result\<lparr>secrets_added := AList.update n success (secrets_added result),
                    errors := errors result @
                      (if success then [] else [''Failed to set secret '' @ n])\<rparr>))"
  by (auto intro!: arg_cong2 [of _ _ _ _ and_then] simp: fun_eq_iff)

declare set_secrets.simps(2) [simp del]

lemma set_secrets_cases:
  obtains (skip) "\<not> truthy v"
    "set_secrets env log owner repo_name ((n, v) # rest) result =
       set_secrets env log owner repo_name rest
         (result\<lparr>secrets_added := AList.update n False (secrets_added result)\<rparr>)"
  | (exit) w log1 where "v = Some w" "w \<noteq> []"
    "create_or_update_secret env log owner repo_name n w = (Inl (SystemExit 1), log1)"
    "set_secrets env log owner repo_name ((n, v) # rest) result = (Inl (SystemExit 1), log1)"
  | (tried) w b log1 where "v = Some w" "w \<noteq> []"
    "create_or_update_secret env log owner repo_name n w = (Inr b, log1)"
    "set_secrets env log owner repo_name ((n, v) # rest) result =
       set_secrets env log1 owner repo_name rest
         (result\<lparr>secrets_added := AList.update n b (secrets_added result),
                 errors := errors result @ (if b then [] else [''Failed to set secret '' @ n])\<rparr>)"
proof (cases "truthy v")
  case False
  then show ?thesis using skip set_secrets_skip by blast
next
  case True
  then obtain w where w: "v = Some w" "w \<noteq> []" by (cases v) auto
  show ?thesis
  proof (cases "create_or_update_secret env log owner repo_name n w" rule: outcome_cases)
    case (raised e log1)
    then have "e = SystemExit 1"
      using create_or_update_secret_raises [of env log owner repo_name n w e] by simp
    then show ?thesis using raised w exit by (simp add: set_secrets_try)
  next
    case (returned b log1)
    then show ?thesis using w tried by (simp add: set_secrets_try)
  qed
qed

lemma set_secrets_raises:
  "fst (set_secrets env log owner repo_name secrets result) = Inl e \<Longrightarrow> e = SystemExit 1"
proof (induction secrets arbitrary: log result)
  case Nil
  then show ?case by simp
next
  case (Cons p secrets)
  obtain n v where p: "p = (n, v)" by (cases p)
  show ?case
  proof (cases rule: set_secrets_cases [of v env log owner repo_name n secrets result])
    case skip
    with Cons.prems show ?thesis by (auto simp: p dest: Cons.IH)
  next
    case (exit w log1)
    with Cons.prems show ?thesis by (simp add: p)
  next
    case (tried w b log1)
    with Cons.prems show ?thesis by (auto simp: p dest: Cons.IH)
  qed
qed



lemma set_secrets_other_names:
  "set_secrets env log owner repo_name secrets result = (Inr r, log') \<Longrightarrow>
   n \<notin> fst ` set secrets \<Longrightarrow>
     map_of (secrets_added r) n = map_of (secrets_added result) n"
proof (induction secrets arbitrary: log result)
  case Nil
  then show ?case by auto
next
  case (Cons p secrets)
  obtain m v where p: "p = (m, v)" by (cases p)
  have m: "m \<noteq> n" and n: "n \<notin> fst ` set secrets"
    using Cons.prems(2) p by auto
  show ?case
  proof (cases rule: set_secrets_cases [of v env log owner repo_name m secrets result])
    case skip
    with Cons.prems have "set_secrets env log owner repo_name secrets
         (result\<lparr>secrets_added := AList.update m False (secrets_added result)\<rparr>) = (Inr r, log')"
      by (simp add: p)
    from Cons.IH [OF this n] show ?thesis using m by (simp add: update_conv')
  next
    case (exit w log1)
    with Cons.prems show ?thesis by (simp add: p)
  next
    case (tried w b log1)
    with Cons.prems have "set_secrets env log1 owner repo_name secrets
         (result\<lparr>secrets_added := AList.update m b (secrets_added result),
                 errors := errors result @ (if b then [] else [''Failed to set secret '' @ m])\<rparr>)
       = (Inr r, log')"
      by (simp add: p)
    from Cons.IH [OF this n] show ?thesis using m by (simp add: update_conv')
  qed
qed

lemma set_secrets_names:
  "set_secrets env log owner repo_name secrets result = (Inr r, log') \<Longrightarrow>
   distinct (map fst secrets) \<Longrightarrow>
   fst ` set secrets \<inter> fst ` set (secrets_added result) = {} \<Longrightarrow>
     map fst (secrets_added r) = map fst (secrets_added result) @ map fst secrets"
proof (induction secrets arbitrary: log result)
  case Nil
  then show ?case by auto
next
  case (Cons p secrets)
  obtain n v where p: "p = (n, v)" by (cases p)
  have fresh: "n \<notin> fst ` set (secrets_added result)" "n \<notin> fst ` set secrets"
    and d: "distinct (map fst secrets)"
    and rest: "fst ` set secrets \<inter> fst ` set (secrets_added result) = {}"
    using Cons.prems(2,3) p by auto
  have keys: "map fst (AList.update n b (secrets_added result))
                = map fst (secrets_added result) @ [n]" for b
    using fresh(1) by (simp add: update_keys)
  have disj: "fst ` set secrets \<inter> fst ` set (AList.update n b (secrets_added result)) = {}" for b
    using fresh(2) rest by (auto simp: dom_update)
  show ?case
  proof (cases rule: set_secrets_cases [of v env log owner repo_name n secrets result])
    case skip
    with Cons.prems(1) have "set_secrets env log owner repo_name secrets
         (result\<lparr>secrets_added := AList.update n False (secrets_added result)\<rparr>) = (Inr r, log')"
      by (simp add: p)
    from Cons.IH [OF this d] show ?thesis
      using disj [of False] keys [of False] by (simp add: p)
  next
    case (exit w log1)
    with Cons.prems(1) show ?thesis by (simp add: p)
  next
    case (tried w b log1)
    with Cons.prems(1) have "set_secrets env log1 owner repo_name secrets
         (result\<lparr>secrets_added := AList.update n b (secrets_added result),
                 errors := errors result @ (if b then [] else [''Failed to set secret '' @ n])\<rparr>)
       = (Inr r, log')"
      by (simp add: p)
    from Cons.IH [OF this d] show ?thesis
      using disj [of b] keys [of b] by (simp add: p)
  qed
qed

lemma set_secrets_skipped:
  "set_secrets env log owner repo_name secrets result = (Inr r, log') \<Longrightarrow>
   distinct (map fst secrets) \<Longrightarrow> (n, v) \<in> set secrets \<Longrightarrow> \<not> truthy v \<Longrightarrow>
     map_of (secrets_added r) n = Some False"
proof (induction secrets arbitrary: log result)
  case Nil
  then show ?case by simp
next
  case (Cons p secrets)
  obtain m u where p: "p = (m, u)" by (cases p)
  have d: "distinct (map fst secrets)" and fresh: "m \<notin> fst ` set secrets"
    using Cons.prems(2) p by auto
  show ?case
  proof (cases "(n, v) = (m, u)")
    case True
    then have "set_secrets env log owner repo_name (p # secrets) result =
       set_secrets env log owner repo_name secrets
         (result\<lparr>secrets_added := AList.update n False (secrets_added result)\<rparr>)"
      using Cons.prems(4) p by (simp add: set_secrets_skip)
    with Cons.prems(1) have run: "set_secrets env log owner repo_name secrets
         (result\<lparr>secrets_added := AList.update n False (secrets_added result)\<rparr>) = (Inr r, log')"
      by simp
    have "n \<notin> fst ` set secrets" using fresh True by simp
    from set_secrets_other_names [OF run this] show ?thesis
      by (simp add: update_conv')
  next
    case False
    then have mem: "(n, v) \<in> set secrets" using Cons.prems(3) p by auto
    show ?thesis
    proof (cases rule: set_secrets_cases [of u env log owner repo_name m secrets result])
      case skip
      with Cons.prems(1) have "set_secrets env log owner repo_name secrets
           (result\<lparr>secrets_added := AList.update m False (secrets_added result)\<rparr>) = (Inr r, log')"
        by (simp add: p)
      from Cons.IH [OF this d mem Cons.prems(4)] show ?thesis .
    next
      case (exit w log1)
      with Cons.prems(1) show ?thesis by (simp add: p)
    next
      case (tried w b log1)
      with Cons.prems(1) have "set_secrets env log1 owner repo_name secrets
           (result\<lparr>secrets_added := AList.update m b (secrets_added result),
                   errors := errors result @ (if b then [] else [''Failed to set secret '' @ m])\<rparr>)
         = (Inr r, log')"
        by (simp add: p)
      from Cons.IH [OF this d mem Cons.prems(4)] show ?thesis .
    qed
  qed
qed

lemma set_secrets_errors:
  "set_secrets env log owner repo_name secrets result = (Inr r, log') \<Longrightarrow>
   distinct (map fst secrets) \<Longrightarrow>
     errors r = errors result @ failed_secrets secrets (secrets_added r)"
proof (induction secrets arbitrary: log result)
  case Nil
  then show ?case by (auto simp add: failed_secrets_def)
next
  case (Cons p secrets)
  obtain n v where p: "p = (n, v)" by (cases p)
  have d: "distinct (map fst secrets)" and fresh: "n \<notin> fst ` set secrets"
    using Cons.prems(2) p by auto
  have split: "failed_secrets ((n, v) # secrets) added =
      (if truthy v \<and> map_of added n \<noteq> Some True then [''Failed to set secret '' @ n] else [])
      @ failed_secrets secrets added" for added
    by (simp add: failed_secrets_def)
  show ?case
  proof (cases rule: set_secrets_cases [of v env log owner repo_name n secrets result])
    case skip
    with Cons.prems(1) have "set_secrets env log owner repo_name secrets
         (result\<lparr>secrets_added := AList.update n False (secrets_added result)\<rparr>) = (Inr r, log')"
      by (simp add: p)
    from Cons.IH [OF this d] show ?thesis
      using skip(1) by (simp add: p split)
  next
    case (exit w log1)
    with Cons.prems(1) show ?thesis by (simp add: p)
  next
    case (tried w b log1)
    let ?r1 = "result\<lparr>secrets_added := AList.update n b (secrets_added result),
              errors := errors result @ (if b then [] else [''Failed to set secret '' @ n])\<rparr>"
    have run: "set_secrets env log1 owner repo_name secrets ?r1 = (Inr r, log')"
      using tried Cons.prems(1) p by simp
    have "map_of (secrets_added r) n = map_of (secrets_added ?r1) n"
      using run fresh by (rule set_secrets_other_names)
    then have rec: "map_of (secrets_added r) n = Some b"
      by (simp add: update_conv')
    have "errors r = errors ?r1 @ failed_secrets secrets (secrets_added r)"
      using run d by (rule Cons.IH)
    then show ?thesis
      using tried(1,2) rec split [of "secrets_added r"] by (simp add: p)
  qed
qed

lemma adds_set_secrets:
  "adds (secret_event owner repo_name (before @ secrets)) log
     (snd (set_secrets env log owner repo_name secrets result))"
proof (induction secrets arbitrary: log result before)
  case Nil
  then show ?case by simp
next
  case (Cons p secrets)
  obtain n v where p: "p = (n, v)" by (cases p)
  have IH: "adds (secret_event owner repo_name (before @ (n, v) # secrets)) l
     (snd (set_secrets env l owner repo_name secrets r))" for l r
    using Cons.IH [of "before @ [(n, v)]" l r] by simp
  show ?case
  proof (cases rule: set_secrets_cases [of v env log owner repo_name n secrets result])
    case skip
    then show ?thesis using IH by (simp add: p)
  next
    case (exit w log1)
    have "adds (secret_event owner repo_name (before @ (n, v) # secrets)) log
       (snd (create_or_update_secret env log owner repo_name n w))"
      using exit(1,2) by (intro adds_create_or_update_secret [of n w]) auto
    then show ?thesis using exit by (simp add: p)
  next
    case (tried w b log1)
    have "adds (secret_event owner repo_name (before @ (n, v) # secrets)) log
       (snd (create_or_update_secret env log owner repo_name n w))"
      using tried(1,2) by (intro adds_create_or_update_secret [of n w]) auto
    then have "adds (secret_event owner repo_name (before @ (n, v) # secrets)) log log1"
      using tried(3) by simp
    then show ?thesis
      using tried(4) IH [of log1] by (auto simp: p intro: adds_trans)
  qed
qed

section \<open>The stages of process_repository\<close>

lemma check_repo_exists_unfold:
  "check_repo_exists env log owner repo_name =
     (case session_get env log (repo_api_url owner repo_name) of
        Inl m \<Rightarrow> (Inl (LibraryError m), log @ [Get (repo_api_url owner repo_name)])
      | Inr response \<Rightarrow>
          (Inr (status_code response = 200), log @ [Get (repo_api_url owner repo_name)]))"
  by (simp add: check_repo_exists_def repo_api_url_def http_get_def split: sum.splits)

lemma update_workflow_permissions_unfold:
  "update_workflow_permissions env log owner repo_name =
     (Inr (case session_put env log (permissions_url owner repo_name) permissions_data of
             Inl m \<Rightarrow> False
           | Inr reply \<Rightarrow> status_code reply = 200 \<or> status_code reply = 204),
      log @ [Put (permissions_url owner repo_name) permissions_data])"
  by (simp add: update_workflow_permissions_def permissions_data_def http_put_def Let_def
      split: sum.splits)

lemma scratch_stage_cases:
  obtains (raised) m log1 where
      "scratch_stage env log token repo_url workflows_source = (Inl (LibraryError m), log1)"
  | (returned) pushed es log1 where
      "scratch_stage env log token repo_url workflows_source =
         (Inr ((initial_result repo_url)\<lparr>workflows_pushed := pushed, errors := es\<rparr>), log1)"
      "es = [] \<longleftrightarrow> pushed"
      "\<forall>name. ''Failed to set secret '' @ name \<notin> set es"
proof (cases "mkdtemp env log")
  case (Inl m)
  then have "scratch_stage env log token repo_url workflows_source
      = (Inl (LibraryError m), log @ [Mkdtemp])"
    by (simp add: scratch_stage_def with_temporary_directory_def)
  then show ?thesis by (rule raised)
next
  case (Inr temp_dir)
  have "\<not> workflows_pushed (initial_result repo_url)"
    by (simp add: initial_result_def)
  from workflows_stage_result [OF this]
  obtain pushed es log1 where
    ws: "workflows_stage env (log @ [Mkdtemp]) token repo_url workflows_source temp_dir
           (initial_result repo_url) =
         (Inr ((initial_result repo_url)\<lparr>workflows_pushed := pushed,
                 errors := errors (initial_result repo_url) @ es\<rparr>), log1)"
    and es: "es = [] \<longleftrightarrow> pushed" "\<forall>name. ''Failed to set secret '' @ name \<notin> set es"
    by blast
  have e0: "errors (initial_result repo_url) @ es = es"
    by (simp add: initial_result_def)
  show ?thesis
  proof (cases "rmtree env log1 temp_dir")
    case None
    then have "scratch_stage env log token repo_url workflows_source =
         (Inr ((initial_result repo_url)\<lparr>workflows_pushed := pushed, errors := es\<rparr>),
          log1 @ [Cleanup temp_dir])"
      using Inr ws e0 by (simp add: scratch_stage_def with_temporary_directory_def)
    then show ?thesis using es by (rule returned)
  next
    case (Some m)
    then have "scratch_stage env log token repo_url workflows_source
        = (Inl (LibraryError m), log1 @ [Cleanup temp_dir])"
      using Inr ws by (simp add: scratch_stage_def with_temporary_directory_def)
    then show ?thesis by (rule raised)
  qed
qed

lemma adds_scratch_stage:
  "adds is_local log (snd (scratch_stage env log token repo_url workflows_source))"
proof (cases "mkdtemp env log")
  case (Inl m)
  then show ?thesis by (simp add: scratch_stage_def with_temporary_directory_def)
next
  case (Inr temp_dir)
  let ?ws = "workflows_stage env (log @ [Mkdtemp]) token repo_url workflows_source temp_dir
               (initial_result repo_url)"
  have "adds is_local (log @ [Mkdtemp]) (snd ?ws)"
    by (rule adds_workflows_stage)
  then have "adds is_local log (snd ?ws)"
    by (auto intro: adds_trans [of _ _ "log @ [Mkdtemp]"])
  then have "adds is_local log (snd ?ws @ [Cleanup temp_dir])"
    by (rule adds_snoc) simp
  then show ?thesis
    using Inr
    by (simp add: scratch_stage_def with_temporary_directory_def case_prod_beta
        split: option.splits)
qed

text \<open>
  Every run of \<^verbatim>\<open>process_repository\<close> is one of six: the reference is rejected;
  the existence query raises; the repository is not reachable; the scratch directory
  cannot be made or removed; a secret is to be sealed and PyNaCl is missing; or all
  three stages run and the full result is returned.
\<close>

lemma process_repository_cases:
  obtains
    (invalid) e where
      "extract_repo_info repo_url = Inl e"
      "process_repository env log token repo_url workflows_source =
         (Inr (Error_dict repo_url ''error'' (str_exn e)), log)"
  | (check_raised) owner repo_name m where
      "extract_repo_info repo_url = Inr (owner, repo_name)"
      "session_get env log (repo_api_url owner repo_name) = Inl m"
      "process_repository env log token repo_url workflows_source =
         (Inr (Error_dict repo_url ''error'' m), log @ [Get (repo_api_url owner repo_name)])"
  | (unreachable) owner repo_name response where
      "extract_repo_info repo_url = Inr (owner, repo_name)"
      "session_get env log (repo_api_url owner repo_name) = Inr response"
      "status_code response \<noteq> 200"
      "process_repository env log token repo_url workflows_source =
         (Inr (Error_dict repo_url ''error'' ''Repository not found or not accessible''),
          log @ [Get (repo_api_url owner repo_name)])"
  | (scratch_raised) owner repo_name response m log1 where
      "extract_repo_info repo_url = Inr (owner, repo_name)"
      "session_get env log (repo_api_url owner repo_name) = Inr response"
      "status_code response = 200"
      "scratch_stage env (log @ [Get (repo_api_url owner repo_name)]) token repo_url
         workflows_source = (Inl (LibraryError m), log1)"
      "process_repository env log token repo_url workflows_source =
         (Inr (Error_dict repo_url ''error'' m), log1)"
  | (exit) owner repo_name response r1 log1 log2 where
      "extract_repo_info repo_url = Inr (owner, repo_name)"
      "session_get env log (repo_api_url owner repo_name) = Inr response"
      "status_code response = 200"
      "scratch_stage env (log @ [Get (repo_api_url owner repo_name)]) token repo_url
         workflows_source = (Inr r1, log1)"
      "set_secrets env log1 owner repo_name (SECRETS_TO_ADD env) r1 = (Inl (SystemExit 1), log2)"
      "process_repository env log token repo_url workflows_source = (Inl (SystemExit 1), log2)"
  | (processed) owner repo_name response r1 log1 r2 log2 b where
      "extract_repo_info repo_url = Inr (owner, repo_name)"
      "session_get env log (repo_api_url owner repo_name) = Inr response"
      "status_code response = 200"
      "scratch_stage env (log @ [Get (repo_api_url owner repo_name)]) token repo_url
         workflows_source = (Inr r1, log1)"
      "set_secrets env log1 owner repo_name (SECRETS_TO_ADD env) r1 = (Inr r2, log2)"
      "update_workflow_permissions env log2 owner repo_name =
         (Inr b, log2 @ [Put (permissions_url owner repo_name) permissions_data])"
      "process_repository env log token repo_url workflows_source =
         (Inr (Result_dict (finish r2 b)),
          log2 @ [Put (permissions_url owner repo_name) permissions_data])"
proof (cases "extract_repo_info repo_url")
  case (Inl e)
  have "is_Exception e"
    using catchable_extract_repo_info [of repo_url log] Inl by simp
  then have "process_repository env log token repo_url workflows_source =
         (Inr (Error_dict repo_url ''error'' (str_exn e)), log)"
    using Inl by (simp add: process_repository_def)
  with Inl show ?thesis by (rule invalid)
next
  case (Inr p)
  obtain owner repo_name where p: "p = (owner, repo_name)" by (cases p)
  let ?l0 = "log @ [Get (repo_api_url owner repo_name)]"
  note ex = Inr [unfolded p]
  show ?thesis
  proof (cases "session_get env log (repo_api_url owner repo_name)")
    case (Inl m)
    then have "process_repository env log token repo_url workflows_source =
         (Inr (Error_dict repo_url ''error'' m), ?l0)"
      using ex by (simp add: process_repository_def check_repo_exists_unfold)
    with ex Inl show ?thesis by (rule check_raised)
  next
    case response: (Inr response)
    show ?thesis
    proof (cases "status_code response = 200")
      case False
      then have "process_repository env log token repo_url workflows_source =
         (Inr (Error_dict repo_url ''error'' ''Repository not found or not accessible''), ?l0)"
        using ex response by (simp add: process_repository_def check_repo_exists_unfold)
      with ex response False show ?thesis by (rule unreachable)
    next
      case True
      have start: "process_repository env log token repo_url workflows_source =
          except_Exception
            (and_then (scratch_stage env ?l0 token repo_url workflows_source) (\<lambda>result log.
             and_then (set_secrets env log owner repo_name (SECRETS_TO_ADD env) result)
               (\<lambda>result log.
             and_then (update_workflow_permissions env log owner repo_name)
               (\<lambda>permissions_success log.
                  (Inr (Result_dict (finish result permissions_success)), log)))))
            (\<lambda>e log. (Inr (Error_dict repo_url ''error'' (str_exn e)), log))"
        using ex response True
        by (simp add: process_repository_def check_repo_exists_unfold scratch_stage_def
            initial_result_def finish_def Let_def)
      show ?thesis
      proof (cases rule: scratch_stage_cases [of env ?l0 token repo_url workflows_source])
        case (raised m log1)
        then have "process_repository env log token repo_url workflows_source =
            (Inr (Error_dict repo_url ''error'' m), log1)"
          by (simp add: start)
        with ex response True raised show ?thesis by (rule scratch_raised)
      next
        case (returned pushed es log1)
        let ?r1 = "(initial_result repo_url)\<lparr>workflows_pushed := pushed, errors := es\<rparr>"
        show ?thesis
        proof (cases "set_secrets env log1 owner repo_name (SECRETS_TO_ADD env) ?r1"
            rule: outcome_cases)
          case (raised e log2)
          then have e: "e = SystemExit 1"
            using set_secrets_raises [of env log1 owner repo_name "SECRETS_TO_ADD env" ?r1 e]
            by simp
          then have "process_repository env log token repo_url workflows_source =
              (Inl (SystemExit 1), log2)"
            using returned(1) raised by (simp add: start)
          with ex response True returned(1) raised [unfolded e] show ?thesis by (rule exit)
        next
          case secrets: (returned r2 log2)
          let ?b = "case session_put env log2 (permissions_url owner repo_name) permissions_data of
                      Inl m \<Rightarrow> False
                    | Inr reply \<Rightarrow> status_code reply = 200 \<or> status_code reply = 204"
          have perm: "update_workflow_permissions env log2 owner repo_name =
              (Inr ?b, log2 @ [Put (permissions_url owner repo_name) permissions_data])"
            by (rule update_workflow_permissions_unfold)
          have "process_repository env log token repo_url workflows_source =
              (Inr (Result_dict (finish r2 ?b)),
               log2 @ [Put (permissions_url owner repo_name) permissions_data])"
            using returned(1) secrets perm by (simp add: start)
          with ex response True returned(1) secrets perm show ?thesis by (rule processed)
        qed
      qed
    qed
  qed
qed

section \<open>An unreachable repository\<close>

text \<open>
  C2, as stated, has the secrets and the permissions still attempted for a repository
  whose existence check fails. The code returns at once: the existence query is the
  only call it makes.
\<close>

theorem unreachable_repository_counterexample:
  "process_repository env_unreachable [] ''t0'' ''https://github.com/o/r'' ''.github/workflows'' =
     (Inr (Error_dict ''https://github.com/o/r'' ''error''
             ''Repository not found or not accessible''),
      [Get ''https://api.github.com/repos/o/r''])"
  by code_simp

text \<open>
  C2, amended: when the existence check of a repository fails, that is when the query is
  answered with a status other than 200, no further stage is attempted for it. No clone,
  no push, no secret and no permission update follow: the existence query is the only
  event, and the result is the error dictionary with the message
  \<open>Repository not found or not accessible\<close>.
\<close>

theorem unreachable_repository_stops:
  assumes "extract_repo_info repo_url = Inr (owner, repo_name)"
    and "session_get env log (repo_api_url owner repo_name) = Inr response"
    and "status_code response \<noteq> 200"
  shows "process_repository env log token repo_url workflows_source =
     (Inr (Error_dict repo_url ''error'' ''Repository not found or not accessible''),
      log @ [Get (repo_api_url owner repo_name)])"
  using assms by (simp add: process_repository_def check_repo_exists_unfold)

theorem unreachable_repository_stops_witness:
  "extract_repo_info ''https://github.com/o/r'' = Inr (''o'', ''r'') \<and>
   session_get env_unreachable [] (repo_api_url ''o'' ''r'') = Inr (answer 404) \<and>
   status_code (answer 404) \<noteq> 200 \<and>
   process_repository env_unreachable [] ''t0'' ''https://github.com/o/r'' ''.github/workflows'' =
     (Inr (Error_dict ''https://github.com/o/r'' ''error''
             ''Repository not found or not accessible''),
      [] @ [Get (repo_api_url ''o'' ''r'')])"
proof -
  have a: "extract_repo_info ''https://github.com/o/r'' = Inr (''o'', ''r'')"
    by code_simp
  have b: "session_get env_unreachable [] (repo_api_url ''o'' ''r'') = Inr (answer 404)"
    by (simp add: env_unreachable_def)
  have c: "status_code (answer 404) \<noteq> 200"
    by (simp add: answer_def)
  from unreachable_repository_stops [OF a b c] a b c show ?thesis by blast
qed

section \<open>The names recorded for the secrets\<close>

lemma distinct_secret_names: "distinct (map fst (SECRETS_TO_ADD env))"
  by (simp add: SECRETS_TO_ADD_def secret_names_def comp_def)

lemma SECRETS_TO_ADD_names: "map fst (SECRETS_TO_ADD env) = secret_names"
  by (simp add: SECRETS_TO_ADD_def comp_def)

lemma finish_fields [simp]:
  "repo (finish r b) = repo r"
  "workflows_pushed (finish r b) = workflows_pushed r"
  "secrets_added (finish r b) = secrets_added r"
  "permissions_updated (finish r b) = b"
  "errors (finish r b) = errors r @ (if b then [] else [''Failed to update workflow permissions''])"
  "status (finish r b) = (if errors r = [] \<and> b then status r else ''partial'')"
  by (simp_all add: finish_def Let_def)

text \<open>
  C10: whenever \<^verbatim>\<open>process_repository\<close> returns a result whose status is not
  \<open>error\<close>, that is whenever the existence check succeeded and no exception aborted
  the repository, the result is the full dictionary and the keys of its
  \<open>secrets_added\<close> are the configured secret names, each once, in their order; the
  skipped ones are among them.
\<close>

theorem secrets_added_names:
  assumes "process_repository env log token repo_url workflows_source = (Inr r, log')"
    and "result_status r \<noteq> ''error''"
  shows "\<exists>d. r = Result_dict d \<and> map fst (secrets_added d) = secret_names \<and>
             map fst (secrets_added d) = map fst (SECRETS_TO_ADD env)"
proof (cases rule: process_repository_cases [of repo_url env log token workflows_source])
  case (invalid e)
  with assms show ?thesis by auto
next
  case (check_raised owner repo_name m)
  with assms show ?thesis by auto
next
  case (unreachable owner repo_name response)
  with assms show ?thesis by auto
next
  case (scratch_raised owner repo_name response m log1)
  with assms show ?thesis by auto
next
  case (exit owner repo_name response r1 log1 log2)
  with assms show ?thesis by auto
next
  case (processed owner repo_name response r1 log1 r2 log2 b)
  have r: "r = Result_dict (finish r2 b)"
    using processed(7) assms(1) by simp
  obtain pushed es where r1: "r1 = (initial_result repo_url)\<lparr>workflows_pushed := pushed, errors := es\<rparr>"
    using processed(4)
    by (cases rule: scratch_stage_cases
          [of env "log @ [Get (repo_api_url owner repo_name)]" token repo_url workflows_source])
       auto
  have "secrets_added r1 = []"
    by (simp add: r1 initial_result_def)
  then have "map fst (secrets_added r2) = map fst (SECRETS_TO_ADD env)"
    using set_secrets_names [OF processed(5) distinct_secret_names] by simp
  then show ?thesis
    using r by (simp add: SECRETS_TO_ADD_names)
qed

theorem secrets_added_names_witness:
  "\<exists>r log'. process_repository env_ok [] ''t0'' ''https://github.com/o/r'' ''.github/workflows''
       = (Inr r, log') \<and> result_status r \<noteq> ''error'' \<and>
     (\<exists>d. r = Result_dict d \<and> map fst (secrets_added d) = secret_names \<and>
          map_of (secrets_added d) ''AWS_REGION'' = Some True \<and>
          map_of (secrets_added d) ''AWS_ACCESS_KEY_ID'' = Some False)"
proof -
  let ?d = "\<lparr>repo = ''https://github.com/o/r'', status = ''success'', workflows_pushed = True,
            secrets_added = [(''AWS_ACCESS_KEY_ID'', False), (''AWS_SECRET_ACCESS_KEY'', False),
                             (''AWS_REGION'', True), (''AWS_BEDROCK_MODEL_ID'', False)],
            permissions_updated = True, errors = []\<rparr>"
  have run: "fst (process_repository env_ok [] ''t0'' ''https://github.com/o/r'' ''.github/workflows'')
      = Inr (Result_dict ?d)"
    by code_simp
  then obtain log' where
    p: "process_repository env_ok [] ''t0'' ''https://github.com/o/r'' ''.github/workflows''
          = (Inr (Result_dict ?d), log')"
    by (metis prod.collapse)
  have s: "result_status (Result_dict ?d) \<noteq> ''error''" by simp
  from secrets_added_names [OF p s] have "map fst (secrets_added ?d) = secret_names" by simp
  with p s show ?thesis by (intro exI [of _ "Result_dict ?d"] exI [of _ log']) simp
qed

section \<open>What process_repository returns\<close>




section \<open>The status of a repository\<close>






section \<open>The default branch\<close>


lemma subprocess_run_zero:
  "subprocess env log args cwd = Inr cp \<Longrightarrow> returncode cp = 0 \<Longrightarrow>
     subprocess_run env log args cwd check = (Completed cp, log @ [Run args cwd])"
  by (simp add: subprocess_run_def)





section \<open>Pushing workflows that are already up to date\<close>

lemma copy_workflow_files_adds_no_Run:
  "adds (\<lambda>e. \<not> is_Run e) log (snd (copy_workflow_files env log src dst files))"
  by (rule adds_mono [OF adds_copy_workflow_files]) auto

text \<open>
  C4: when the workflow files have been copied, the workflow directory has been staged
  and git reports the staged diff as empty (\<^verbatim>\<open>git diff --cached --quiet\<close> exits with
  0, as it does on a second run against an unchanged source directory), then
  \<^verbatim>\<open>push_workflows\<close> returns true, and the only git commands it has run are the
  \<open>add\<close> and the \<open>diff\<close>: there is no commit and no push.
\<close>

theorem push_workflows_up_to_date:
  assumes "getcwd env log = (Inr original_cwd, l0)"
    and "makedirs env l0 (workflows_dest_of repo_path) = (Inr (), l1)"
    and "listdir env l1 workflows_source = (Inr files, l2)"
    and "copy_workflow_files env l2 workflows_source (workflows_dest_of repo_path) files
           = (Inr (), l3)"
    and "subprocess env l3 git_add repo_path = Inr staged"
    and "returncode staged = 0"
    and "subprocess env (l3 @ [Run git_add repo_path]) git_diff repo_path = Inr result"
    and "returncode result = 0"
  shows "push_workflows env log repo_path workflows_source =
           (Inr True, l3 @ [Run git_add repo_path, Run git_diff repo_path, Chdir original_cwd]) \<and>
         filter is_Run (drop (length log) (snd (push_workflows env log repo_path workflows_source)))
           = [Run git_add repo_path, Run git_diff repo_path]"
proof -
  have run: "push_workflows env log repo_path workflows_source =
           (Inr True, l3 @ [Run git_add repo_path, Run git_diff repo_path, Chdir original_cwd])"
    using assms
    by (simp add: push_workflows_def push_workflows_try_def workflows_dest_of_def Let_def
        git_add_def git_diff_def subprocess_run_zero)
  have "l0 = log @ [Getcwd]"
    using assms(1) getcwd_snd [of env log] by simp
  moreover have "l1 = l0 @ [Makedirs (workflows_dest_of repo_path)]"
    using assms(2) makedirs_snd [of env l0 "workflows_dest_of repo_path"] by simp
  moreover have "l2 = l1 @ [Listdir workflows_source]"
    using assms(3) listdir_snd [of env l1 workflows_source] by simp
  moreover obtain copies where "l3 = l2 @ copies" "list_all (\<lambda>e. \<not> is_Run e) copies"
    using copy_workflow_files_adds_no_Run
      [of l2 env workflows_source "workflows_dest_of repo_path" files] assms(4)
    by (auto simp: adds_iff)
  ultimately have "filter is_Run (drop (length log)
      (l3 @ [Run git_add repo_path, Run git_diff repo_path, Chdir original_cwd]))
        = [Run git_add repo_path, Run git_diff repo_path]"
    by (simp add: list_all_iff filter_empty_conv [THEN iffD2])
  with run show ?thesis by simp
qed

theorem push_workflows_up_to_date_witness:
  "push_workflows env_ok [] ''/tmp/t0/r'' ''.github/workflows'' =
     (Inr True,
      [Getcwd, Makedirs ''/tmp/t0/r/.github/workflows'', Listdir ''.github/workflows'',
       Copy2 ''.github/workflows/ci.yml'' ''/tmp/t0/r/.github/workflows/ci.yml'']
      @ [Run git_add ''/tmp/t0/r'', Run git_diff ''/tmp/t0/r'', Chdir ''/work'']) \<and>
   filter is_Run (drop (length ([] :: event list))
      (snd (push_workflows env_ok [] ''/tmp/t0/r'' ''.github/workflows'')))
     = [Run git_add ''/tmp/t0/r'', Run git_diff ''/tmp/t0/r'']"
proof -
  let ?l3 = "[Getcwd, Makedirs ''/tmp/t0/r/.github/workflows'', Listdir ''.github/workflows'',
       Copy2 ''.github/workflows/ci.yml'' ''/tmp/t0/r/.github/workflows/ci.yml'']"
  have a: "getcwd env_ok [] = (Inr ''/work'', [Getcwd])"
    by code_simp
  have b: "makedirs env_ok [Getcwd] (workflows_dest_of ''/tmp/t0/r'')
      = (Inr (), [Getcwd, Makedirs ''/tmp/t0/r/.github/workflows''])"
    by code_simp
  have c: "listdir env_ok [Getcwd, Makedirs ''/tmp/t0/r/.github/workflows''] ''.github/workflows''
      = (Inr [''ci.yml'', ''notes.txt''],
         [Getcwd, Makedirs ''/tmp/t0/r/.github/workflows'', Listdir ''.github/workflows''])"
    by code_simp
  have d: "copy_workflow_files env_ok
       [Getcwd, Makedirs ''/tmp/t0/r/.github/workflows'', Listdir ''.github/workflows'']
       ''.github/workflows'' (workflows_dest_of ''/tmp/t0/r'') [''ci.yml'', ''notes.txt'']
      = (Inr (), ?l3)"
    by code_simp
  have e: "subprocess env_ok ?l3 git_add ''/tmp/t0/r'' = Inr (exited 0 ''main'')"
    "subprocess env_ok (?l3 @ [Run git_add ''/tmp/t0/r'']) git_diff ''/tmp/t0/r''
       = Inr (exited 0 ''main'')"
    by (simp_all add: env_ok_def)
  have f: "returncode (exited 0 ''main'') = 0"
    by (simp add: exited_def)
  from push_workflows_up_to_date [OF a b c d e(1) f e(2) f] show ?thesis .
qed

section \<open>The events of a repository\<close>

lemma drop_adds:
  assumes "adds P a b" and "adds Q b c"
  shows "drop (length a) c = drop (length a) b @ drop (length b) c"
proof -
  obtain x where x: "b = a @ x" using assms(1) by (auto simp: adds_iff)
  obtain y where y: "c = b @ y" using assms(2) by (auto simp: adds_iff)
  show ?thesis by (simp add: x y)
qed

lemma key_fetches_simps [simp]:
  "key_fetches owner repo_name [] = 0"
  "key_fetches owner repo_name (xs @ ys)
     = key_fetches owner repo_name xs + key_fetches owner repo_name ys"
  by (simp_all add: key_fetches_def)

lemma key_fetches_local:
  "list_all is_local events \<Longrightarrow> key_fetches owner repo_name events = 0"
  by (auto simp: key_fetches_def list_all_iff filter_empty_conv)

lemma with_value_Cons [simp]:
  "with_value ((n, v) # secrets) = (if truthy v then 1 else 0) + with_value secrets"
  by (simp add: with_value_def)

lemma create_or_update_secret_fetches:
  "key_fetches owner repo_name (drop (length log)
     (snd (create_or_update_secret env log owner repo_name secret_name secret_value))) = 1"
  unfolding key_fetches_def by (rule public_key_fetched_once)

text \<open>
  The loop fetches the key at most once for every secret that has a value, and exactly
  once for each of them when it runs to its end.
\<close>

lemma set_secrets_fetches:
  "key_fetches owner repo_name
     (drop (length log) (snd (set_secrets env log owner repo_name secrets result)))
       \<le> with_value secrets \<and>
   (\<forall>r. fst (set_secrets env log owner repo_name secrets result) = Inr r \<longrightarrow>
      key_fetches owner repo_name
        (drop (length log) (snd (set_secrets env log owner repo_name secrets result)))
          = with_value secrets)"
proof (induction secrets arbitrary: log result)
  case Nil
  then show ?case by (simp add: with_value_def)
next
  case (Cons p secrets)
  obtain n v where p: "p = (n, v)" by (cases p)
  show ?case
  proof (cases rule: set_secrets_cases [of v env log owner repo_name n secrets result])
    case skip
    then show ?thesis using Cons.IH by (simp add: p)
  next
    case (exit w log1)
    have "key_fetches owner repo_name (drop (length log) log1) = 1"
      using create_or_update_secret_fetches [of owner repo_name log env n w] exit(3) by simp
    then show ?thesis using exit by (simp add: p)
  next
    case (tried w b log1)
    let ?r1 = "result\<lparr>secrets_added := AList.update n b (secrets_added result),
                 errors := errors result @ (if b then [] else [''Failed to set secret '' @ n])\<rparr>"
    let ?end = "snd (set_secrets env log1 owner repo_name secrets ?r1)"
    have one: "key_fetches owner repo_name (drop (length log) log1) = 1"
      using create_or_update_secret_fetches [of owner repo_name log env n w] tried(3) by simp
    have "adds (secret_event owner repo_name [(n, v)]) log
       (snd (create_or_update_secret env log owner repo_name n w))"
      using tried(1,2) by (intro adds_create_or_update_secret [of n w]) auto
    then have a1: "adds (secret_event owner repo_name [(n, v)]) log log1"
      using tried(3) by simp
    have a2: "adds (secret_event owner repo_name ([] @ secrets)) log1 ?end"
      by (rule adds_set_secrets)
    have "drop (length log) ?end = drop (length log) log1 @ drop (length log1) ?end"
      using a1 a2 by (rule drop_adds)
    then have "key_fetches owner repo_name (drop (length log) ?end)
        = 1 + key_fetches owner repo_name (drop (length log1) ?end)"
      using one by simp
    then show ?thesis
      using tried(1,2,4) Cons.IH [of log1 ?r1] by (simp add: p)
  qed
qed

lemma set_secrets_log:
  "\<exists>sec. snd (set_secrets env log owner repo_name secrets result) = log @ sec \<and>
         list_all (secret_event owner repo_name secrets) sec \<and>
         key_fetches owner repo_name sec \<le> with_value secrets \<and>
         (\<forall>r. fst (set_secrets env log owner repo_name secrets result) = Inr r \<longrightarrow>
              key_fetches owner repo_name sec = with_value secrets)"
proof -
  let ?end = "snd (set_secrets env log owner repo_name secrets result)"
  have "adds (secret_event owner repo_name ([] @ secrets)) log ?end"
    by (rule adds_set_secrets)
  then obtain sec where sec: "?end = log @ sec" "list_all (secret_event owner repo_name secrets) sec"
    by (auto simp: adds_iff)
  have "drop (length log) ?end = sec" by (simp add: sec(1))
  then show ?thesis
    using set_secrets_fetches [of owner repo_name log env secrets result] sec by auto
qed

lemma scratch_stage_log:
  "\<exists>loc. snd (scratch_stage env log token repo_url workflows_source) = log @ loc \<and>
         list_all is_local loc"
  using adds_scratch_stage [of log env token repo_url workflows_source]
  by (auto simp: adds_iff)

text \<open>
  What \<^verbatim>\<open>process_repository\<close> adds to the log: the existence query, then the local
  events of the workflow stage, then the events of the secrets, then the permission
  update; it stops early in the order of its stages.
\<close>

lemma process_repository_log:
  assumes "extract_repo_info repo_url = Inr (owner, repo_name)"
  shows "\<exists>loc sec fin.
     snd (process_repository env log token repo_url workflows_source)
       = log @ Get (repo_api_url owner repo_name) # loc @ sec @ fin \<and>
     list_all is_local loc \<and>
     list_all (secret_event owner repo_name (SECRETS_TO_ADD env)) sec \<and>
     key_fetches owner repo_name sec \<le> with_value (SECRETS_TO_ADD env) \<and>
     (fin = [] \<or> fin = [Put (permissions_url owner repo_name) permissions_data]) \<and>
     (\<forall>d. fst (process_repository env log token repo_url workflows_source) = Inr (Result_dict d) \<longrightarrow>
        key_fetches owner repo_name sec = with_value (SECRETS_TO_ADD env) \<and>
        fin = [Put (permissions_url owner repo_name) permissions_data])"
proof (cases rule: process_repository_cases [of repo_url env log token workflows_source])
  case (invalid e)
  with assms show ?thesis by simp
next
  case (check_raised owner0 repo_name0 m)
  with assms show ?thesis
    by (intro exI [of _ "[]"]) simp
next
  case (unreachable owner0 repo_name0 response)
  with assms show ?thesis
    by (intro exI [of _ "[]"]) simp
next
  case (scratch_raised owner0 repo_name0 response m log1)
  then have o: "owner0 = owner" "repo_name0 = repo_name" using assms by simp_all
  obtain loc where "log1 = (log @ [Get (repo_api_url owner repo_name)]) @ loc" "list_all is_local loc"
    using scratch_stage_log
      [of env "log @ [Get (repo_api_url owner repo_name)]" token repo_url workflows_source]
      scratch_raised(4) o
    by auto
  then show ?thesis
    using scratch_raised(5) by (intro exI [of _ loc] exI [of _ "[]"]) simp
next
  case (exit owner0 repo_name0 response r1 log1 log2)
  then have o: "owner0 = owner" "repo_name0 = repo_name" using assms by simp_all
  obtain loc where loc: "log1 = (log @ [Get (repo_api_url owner repo_name)]) @ loc" "list_all is_local loc"
    using scratch_stage_log
      [of env "log @ [Get (repo_api_url owner repo_name)]" token repo_url workflows_source]
      exit(4) o
    by auto
  obtain sec where sec: "log2 = log1 @ sec"
      "list_all (secret_event owner repo_name (SECRETS_TO_ADD env)) sec"
      "key_fetches owner repo_name sec \<le> with_value (SECRETS_TO_ADD env)"
    using set_secrets_log [of env log1 owner repo_name "SECRETS_TO_ADD env" r1] exit(5) o
    by auto
  show ?thesis
    using exit(6) loc sec by (intro exI [of _ loc] exI [of _ sec] exI [of _ "[]"]) simp
next
  case (processed owner0 repo_name0 response r1 log1 r2 log2 b)
  then have o: "owner0 = owner" "repo_name0 = repo_name" using assms by simp_all
  obtain loc where loc: "log1 = (log @ [Get (repo_api_url owner repo_name)]) @ loc" "list_all is_local loc"
    using scratch_stage_log
      [of env "log @ [Get (repo_api_url owner repo_name)]" token repo_url workflows_source]
      processed(4) o
    by auto
  obtain sec where sec: "log2 = log1 @ sec"
      "list_all (secret_event owner repo_name (SECRETS_TO_ADD env)) sec"
      "key_fetches owner repo_name sec = with_value (SECRETS_TO_ADD env)"
    using set_secrets_log [of env log1 owner repo_name "SECRETS_TO_ADD env" r1] processed(5) o
    by auto
  show ?thesis
    using processed(7) loc sec o
    by (intro exI [of _ loc] exI [of _ sec]
          exI [of _ "[Put (permissions_url owner repo_name) permissions_data]"]) simp
qed

section \<open>Secrets without a value\<close>

lemma secret_url_eq [simp]:
  "secret_url owner repo_name n = secret_url owner repo_name m \<longleftrightarrow> n = m"
  by (simp add: secret_url_def)

lemma permissions_url_not_secret_url [simp]:
  "permissions_url owner repo_name \<noteq> secret_url owner repo_name n"
  "secret_url owner repo_name n \<noteq> permissions_url owner repo_name"
  by (simp_all add: permissions_url_def secret_url_def)

lemma repo_api_url_not_public_key_url [simp]:
  "repo_api_url owner repo_name \<noteq> public_key_url owner repo_name"
  by (simp add: repo_api_url_def public_key_url_def)

lemma one_value:
  "distinct (map fst secrets) \<Longrightarrow> (n, v) \<in> set secrets \<Longrightarrow> (n, w) \<in> set secrets \<Longrightarrow> v = w"
  by (metis map_of_is_SomeI option.inject)

lemma no_event_for_skipped:
  assumes "distinct (map fst secrets)" and "(name, v) \<in> set secrets" and "\<not> truthy v"
  shows "\<not> secret_event owner repo_name secrets (Put (secret_url owner repo_name name) data)"
proof
  assume "secret_event owner repo_name secrets (Put (secret_url owner repo_name name) data)"
  then obtain p where p: "p \<in> set secrets" "truthy (snd p)" "fst p = name"
    by (auto simp: secret_event_def list_ex_iff)
  then have "(name, snd p) \<in> set secrets" by (metis prod.collapse)
  with assms(1) have "snd p = v" using assms(2) by (rule one_value)
  with p(2) assms(3) show False by simp
qed

lemma no_error_for_skipped:
  assumes "distinct (map fst secrets)" and "(name, v) \<in> set secrets" and "\<not> truthy v"
  shows "''Failed to set secret '' @ name \<notin> set (failed_secrets secrets added)"
proof
  assume "''Failed to set secret '' @ name \<in> set (failed_secrets secrets added)"
  then obtain p where p: "p \<in> set secrets" "truthy (snd p)" "fst p = name"
    by (auto simp: failed_secrets_def)
  then have "(name, snd p) \<in> set secrets" by (metis prod.collapse)
  with assms(1) have "snd p = v" using assms(2) by (rule one_value)
  with p(2) assms(3) show False by simp
qed

text \<open>
  C7: for every configured secret whose value is empty or absent, however the run of
  \<^verbatim>\<open>process_repository\<close> goes: no request is sent to the address of that secret, the
  public key is fetched at most as many times as there are secrets that have a value,
  and in the full result the secret is recorded as not added (\<open>False\<close>) while the
  errors hold no entry for it.
\<close>

theorem skipped_secret:
  assumes "extract_repo_info repo_url = Inr (owner, repo_name)"
    and "(name, v) \<in> set (SECRETS_TO_ADD env)"
    and "\<not> truthy v"
  shows "(\<forall>data. Put (secret_url owner repo_name name) data \<notin>
            set (drop (length log) (snd (process_repository env log token repo_url workflows_source)))) \<and>
         key_fetches owner repo_name
            (drop (length log) (snd (process_repository env log token repo_url workflows_source)))
              \<le> with_value (SECRETS_TO_ADD env) \<and>
         (\<forall>d. fst (process_repository env log token repo_url workflows_source) = Inr (Result_dict d) \<longrightarrow>
            map_of (secrets_added d) name = Some False \<and>
            ''Failed to set secret '' @ name \<notin> set (errors d))"
proof -
  let ?run = "process_repository env log token repo_url workflows_source"
  obtain loc sec fin where
    log: "snd ?run = log @ Get (repo_api_url owner repo_name) # loc @ sec @ fin"
    and loc: "list_all is_local loc"
    and sec: "list_all (secret_event owner repo_name (SECRETS_TO_ADD env)) sec"
    and n: "key_fetches owner repo_name sec \<le> with_value (SECRETS_TO_ADD env)"
    and fin: "fin = [] \<or> fin = [Put (permissions_url owner repo_name) permissions_data]"
    using process_repository_log [OF assms(1), of env log token workflows_source] by blast
  have new: "drop (length log) (snd ?run) = Get (repo_api_url owner repo_name) # loc @ sec @ fin"
    by (simp add: log)
  have "Put (secret_url owner repo_name name) data \<notin> set loc" for data
    using loc by (auto simp: list_all_iff)
  moreover have "Put (secret_url owner repo_name name) data \<notin> set sec" for data
    using sec no_event_for_skipped [OF distinct_secret_names assms(2,3), of owner repo_name data]
    by (auto simp: list_all_iff)
  moreover have "Put (secret_url owner repo_name name) data \<notin> set fin" for data
    using fin by auto
  ultimately have no_put: "\<forall>data. Put (secret_url owner repo_name name) data \<notin> set (drop (length log) (snd ?run))"
    by (simp add: new)
  have "key_fetches owner repo_name fin = 0"
    using fin by (auto simp: key_fetches_def)
  then have fetches: "key_fetches owner repo_name (drop (length log) (snd ?run))
      \<le> with_value (SECRETS_TO_ADD env)"
    using n key_fetches_local [OF loc, of owner repo_name]
      key_fetches_simps(2) [of owner repo_name "[Get (repo_api_url owner repo_name)]" "loc @ sec @ fin"]
    by (simp add: new) (simp add: key_fetches_def)
  have recorded: "map_of (secrets_added d) name = Some False \<and>
      ''Failed to set secret '' @ name \<notin> set (errors d)"
    if d: "fst ?run = Inr (Result_dict d)" for d
  proof (cases rule: process_repository_cases [of repo_url env log token workflows_source])
    case (invalid e)
    with d show ?thesis by simp
  next
    case (check_raised owner0 repo_name0 m)
    with d show ?thesis by simp
  next
    case (unreachable owner0 repo_name0 response)
    with d show ?thesis by simp
  next
    case (scratch_raised owner0 repo_name0 response m log1)
    with d show ?thesis by simp
  next
    case (exit owner0 repo_name0 response r1 log1 log2)
    with d show ?thesis by simp
  next
    case (processed owner0 repo_name0 response r1 log1 r2 log2 b)
    have dd: "d = finish r2 b" using processed(7) d by simp
    obtain pushed es where r1: "r1 = (initial_result repo_url)\<lparr>workflows_pushed := pushed, errors := es\<rparr>"
      and es: "\<forall>name. ''Failed to set secret '' @ name \<notin> set es"
      using processed(4)
      by (cases rule: scratch_stage_cases
            [of env "log @ [Get (repo_api_url owner0 repo_name0)]" token repo_url workflows_source])
         auto
    have rec: "map_of (secrets_added r2) name = Some False"
      using set_secrets_skipped [OF processed(5) distinct_secret_names assms(2,3)] .
    have errs: "errors r2 = es @ failed_secrets (SECRETS_TO_ADD env) (secrets_added r2)"
      using set_secrets_errors [OF processed(5) distinct_secret_names] by (simp add: r1)
    have "''Failed to set secret '' @ name \<notin> set (errors r2)"
      using es no_error_for_skipped [OF distinct_secret_names assms(2,3)] by (simp add: errs)
    then show ?thesis
      using rec by (simp add: dd)
  qed
  from no_put fetches recorded show ?thesis by blast
qed

theorem skipped_secret_witness:
  "extract_repo_info ''https://github.com/o/r'' = Inr (''o'', ''r'') \<and>
   (''AWS_ACCESS_KEY_ID'', None) \<in> set (SECRETS_TO_ADD env_ok) \<and> \<not> truthy None \<and>
   (\<forall>data. Put (secret_url ''o'' ''r'' ''AWS_ACCESS_KEY_ID'') data \<notin>
      set (snd (process_repository env_ok [] ''t0'' ''https://github.com/o/r'' ''.github/workflows''))) \<and>
   (\<exists>d. fst (process_repository env_ok [] ''t0'' ''https://github.com/o/r'' ''.github/workflows'')
           = Inr (Result_dict d) \<and>
        map_of (secrets_added d) ''AWS_ACCESS_KEY_ID'' = Some False \<and>
        ''Failed to set secret '' @ ''AWS_ACCESS_KEY_ID'' \<notin> set (errors d))"
proof -
  have a: "extract_repo_info ''https://github.com/o/r'' = Inr (''o'', ''r'')"
    by code_simp
  have b: "(''AWS_ACCESS_KEY_ID'', None) \<in> set (SECRETS_TO_ADD env_ok)"
    by (simp add: SECRETS_TO_ADD_def secret_names_def env_ok_def)
  have c: "\<not> truthy None" by simp
  have "fst (process_repository env_ok [] ''t0'' ''https://github.com/o/r'' ''.github/workflows'')
      = Inr (Result_dict
          \<lparr>repo = ''https://github.com/o/r'', status = ''success'', workflows_pushed = True,
           secrets_added = [(''AWS_ACCESS_KEY_ID'', False), (''AWS_SECRET_ACCESS_KEY'', False),
                            (''AWS_REGION'', True), (''AWS_BEDROCK_MODEL_ID'', False)],
           permissions_updated = True, errors = []\<rparr>)"
    by code_simp
  with skipped_secret [OF a b c, of "[]" "''t0''" "''.github/workflows''"] a b c
  show ?thesis by auto
qed

section \<open>Uploading a secret\<close>

lemma snoc2_eq_snoc [simp]: "xs @ [a, b] = ys @ [c] \<longleftrightarrow> xs @ [a] = ys \<and> b = c"
  by (metis append.assoc append_Cons append_Nil append1_eq_conv)





section \<open>The script\<close>

lemma process_repository_raises:
  "fst (process_repository env log token repo_url workflows_source) = Inl e \<Longrightarrow> e = SystemExit 1"
  by (cases rule: process_repository_cases [of repo_url env log token workflows_source]) auto







end
